theory Spec2Isabelle
  imports Main "HOL-Library.Sublist"
begin

section \<open>Python built-ins used by the wallet\<close>

text \<open>
  \<^verbatim>\<open>bin(n)\<close>: the binary digits of \<open>n\<close>, most significant first, after the prefix
  \<^verbatim>\<open>0b\<close>, with a leading minus sign for a negative number; \<^verbatim>\<open>bin(0) = '0b0'\<close>.
\<close>

function bin_digits :: "nat \<Rightarrow> string" where
  "bin_digits n =
     (if n < 2 then [if n = 0 then CHR ''0'' else CHR ''1'']
      else bin_digits (n div 2) @ [if even n then CHR ''0'' else CHR ''1''])"
  by pat_completeness auto
termination
  by (relation "measure id") auto

definition bin :: "int \<Rightarrow> string" where
  "bin n = (if n < 0 then ''-0b'' @ bin_digits (nat (- n)) else ''0b'' @ bin_digits (nat n))"

section \<open>LedgerAPI: the denomination split\<close>

text \<open>
  \<^verbatim>\<open>
  def _get_output_split(amount):
      bits_amt = bin(amount)[::-1][:-2]
      rv = []
      for (pos, bit) in enumerate(bits_amt):
          if bit == "1":
              rv.append(2**pos)
      return rv
  \<close>
  The slice \<^verbatim>\<open>[:-2]\<close> keeps all but the last two characters (nothing of a string
  shorter than two).
\<close>

fun split_loop :: "(nat \<times> char) list \<Rightarrow> int list \<Rightarrow> int list" where
  "split_loop [] rv = rv"
| "split_loop ((pos, b) # rest) rv =
     split_loop rest (if b = CHR ''1'' then rv @ [2 ^ pos] else rv)"

definition get_output_split :: "int \<Rightarrow> int list" where
  "get_output_split amount =
     (let bits_amt = take (length (bin amount) - 2) (rev (bin amount))
      in split_loop (enumerate 0 bits_amt) [])"


text \<open>
  Modelled from the spec: \<^verbatim>\<open>cashu.core.split.amount_split\<close> is imported by the wallet
  but its file is not part of the sources at hand. The spec (4.2) describes it as the
  binary decomposition of its argument, with the docstring example 13 to [1, 4, 8] that
  \<^verbatim>\<open>LedgerAPI._get_output_split\<close> carries; it is taken to be that function.
\<close>

definition amount_split :: "int \<Rightarrow> int list" where
  "amount_split n = get_output_split n"

section \<open>More built-ins: \<^verbatim>\<open>str.split\<close>, \<^verbatim>\<open>str(int)\<close>, \<^verbatim>\<open>range\<close>, indexing\<close>

text \<open>
  \<^verbatim>\<open>s.split(sep)\<close> for a non-empty separator: the pieces between the occurrences of
  \<open>sep\<close>, found from the left without overlap. \<open>acc\<close> is the piece being read.
\<close>

function str_split_from :: "string \<Rightarrow> string \<Rightarrow> string \<Rightarrow> string list" where
  "str_split_from sep acc s =
     (if s = [] then [acc]
      else if sep \<noteq> [] \<and> prefix sep s then acc # str_split_from sep [] (drop (length sep) s)
      else str_split_from sep (acc @ [hd s]) (tl s))"
  by pat_completeness auto
termination
  by (relation "measure (\<lambda>(sep, acc, s). length s)") auto

definition str_split :: "string \<Rightarrow> string \<Rightarrow> string list" where
  "str_split s sep = str_split_from sep [] s"

text \<open>\<^verbatim>\<open>str(i)\<close>, which an f-string applies to an integer: its decimal digits.\<close>

function str_nat :: "nat \<Rightarrow> string" where
  "str_nat n =
     (if n < 10 then [''0123456789'' ! n]
      else str_nat (n div 10) @ [''0123456789'' ! (n mod 10)])"
  by pat_completeness auto
termination
  by (relation "measure id") auto

definition str_int :: "int \<Rightarrow> string" where
  "str_int i = (if i < 0 then ''-'' @ str_nat (nat (- i)) else str_nat (nat i))"

text \<open>\<^verbatim>\<open>range(n)\<close>: the integers from 0 up to \<open>n - 1\<close>, none when \<open>n \<le> 0\<close>.\<close>

definition py_range :: "int \<Rightarrow> int list" where
  "py_range n = map int [0..<nat n]"

datatype error =
    AssertionError string
  | Exception string
  | HTTPError
  | JSONDecodeError
  | KeyError
  | IndexError
  | ValueError

text \<open>\<^verbatim>\<open>xs[i]\<close>: a negative index counts from the end, an index out of range raises.\<close>

definition py_index :: "'a list \<Rightarrow> int \<Rightarrow> error + 'a" where
  "py_index xs i =
     (if 0 \<le> i \<and> i < int (length xs) then Inr (xs ! nat i)
      else if i < 0 \<and> - int (length xs) \<le> i then Inr (xs ! nat (int (length xs) + i))
      else Inl IndexError)"

section \<open>Data model\<close>

text \<open>
  Modelled from the spec: the classes of \<^verbatim>\<open>cashu.core.base\<close> are imported by the wallet
  but not part of the sources at hand. The records hold the fields the spec (3) lists and
  the wallet reads or writes; \<open>id\<close> and \<open>script\<close> of a proof are left out (only
  \<^verbatim>\<open>redeem\<close> and \<^verbatim>\<open>create_p2sh_lock\<close>, which are not modelled, touch a script). Points are
  kept in their serialised form, a hex string. A proof built by
  \<^verbatim>\<open>Proof(amount=.., C=.., secret=..)\<close> is not reserved and has no send id.
\<close>

record Proof =
  amount :: int
  C :: string
  secret :: string
  reserved :: bool
  send_id :: "string option"

datatype BlindedMessage = BlindedMessage (msg_amount: int) (B': string)

datatype BlindedSignature = BlindedSignature (sig_amount: int) (C': string)

section \<open>The wallet's surroundings\<close>

text \<open>
  What an HTTP call to the mint can come back with: a status that
  \<^verbatim>\<open>raise_for_status\<close> rejects, a body that is not JSON, a JSON object with an
  \<^verbatim>\<open>error\<close> field, or the body of the endpoint.
\<close>

datatype 'a response = HttpFailure | NotJson | ErrorBody string | Body 'a

text \<open>
  Everything the wallet code takes from outside itself is a field of \<open>world\<close>:
  \<^item> \<open>token_urlsafe i\<close>: what the \<open>i\<close>-th call of \<^verbatim>\<open>secrets.token_urlsafe(16)\<close> returns;
  \<^item> \<open>uuid1 i\<close>: what the \<open>i\<close>-th call of \<^verbatim>\<open>str(uuid.uuid1())\<close> returns;
  \<^item> \<open>valid_point\<close>, \<open>step1_alice\<close>, \<open>step3_alice\<close>: the curve library and
    \<^verbatim>\<open>cashu.core.b_dhke\<close> (absent from the sources): whether a hex string is a curve
    point, blinding a secret (the blinded message and the blinding factor, which the
    library draws at random and which is a function of the secret here) and
    unblinding a signature with a blinding factor and a mint key;
  \<^item> \<open>keys\<close>: the keyset \<^verbatim>\<open>self.keys\<close> that \<^verbatim>\<open>_load_mint\<close> fetched;
  \<^item> \<open>post_mint\<close>, \<open>post_split\<close>, \<open>post_check\<close>, \<open>post_melt\<close>: the mint's answers. The
    JSON object of \<^verbatim>\<open>/check\<close> is the list of its items in order, each key already
    read as an integer.
\<close>

record world =
  token_urlsafe :: "nat \<Rightarrow> string"
  uuid1 :: "nat \<Rightarrow> string"
  valid_point :: "string \<Rightarrow> bool"
  step1_alice :: "string \<Rightarrow> string \<times> string"
  step3_alice :: "string \<Rightarrow> string \<Rightarrow> string \<Rightarrow> string"
  keys :: "int \<rightharpoonup> string"
  post_mint :: "BlindedMessage list \<Rightarrow> string option \<Rightarrow> BlindedSignature list response"
  post_split :: "Proof list \<Rightarrow> int \<Rightarrow> BlindedMessage list
                  \<Rightarrow> (BlindedSignature list \<times> BlindedSignature list) response"
  post_check :: "Proof list \<Rightarrow> (int \<times> bool) list response"
  post_melt :: "Proof list \<Rightarrow> string \<Rightarrow> bool response"

datatype request =
    MintRequest "BlindedMessage list" "string option"
  | SplitRequest "Proof list" int "BlindedMessage list"
  | CheckRequest "Proof list"
  | MeltRequest "Proof list" string

text \<open>The side effects of the wallet, in the order in which they happen.\<close>

datatype event =
    SecretUsed string
  | StoreProof Proof
  | InvalidateProof Proof
  | UpdateProofReserved Proof bool string
  | Post request
  | SetProofs "Proof list"

text \<open>
  The wallet: \<open>proofs\<close> is \<^verbatim>\<open>self.proofs\<close>; \<open>db_proofs\<close> and \<open>db_spent\<close> are the store
  (its live proofs and the secrets of the invalidated ones); \<open>drawn\<close> and \<open>uuids\<close> count
  the random secrets and the UUIDs generated so far; \<open>trace\<close> records the side effects.
\<close>

record wallet =
  proofs :: "Proof list"
  db_proofs :: "Proof list"
  db_spent :: "string list"
  drawn :: nat
  uuids :: nat
  trace :: "event list"

definition log_event :: "event \<Rightarrow> wallet \<Rightarrow> wallet" where
  "log_event e st = st\<lparr>trace := trace st @ [e]\<rparr>"

definition set_proofs :: "Proof list \<Rightarrow> wallet \<Rightarrow> wallet" where
  "set_proofs ps st = log_event (SetProofs ps) (st\<lparr>proofs := ps\<rparr>)"

section \<open>The proof store\<close>

text \<open>
  Modelled from the spec: \<^verbatim>\<open>cashu.wallet.crud\<close> is imported by the wallet but not part
  of the sources at hand. The spec (4.5) gives the contracts: \<^verbatim>\<open>store_proof\<close> inserts or
  upserts by secret; \<^verbatim>\<open>invalidate_proof\<close> removes the proof from the live set, after
  which \<^verbatim>\<open>secret_used\<close> of its secret is true; \<^verbatim>\<open>secret_used\<close> is true of a secret in
  the live set or in the invalidated history; \<^verbatim>\<open>update_proof_reserved\<close> sets the
  reserved flag and the send id of the stored proof.
\<close>

definition store_proof :: "Proof \<Rightarrow> wallet \<Rightarrow> wallet" where
  "store_proof p st =
     log_event (StoreProof p)
       (st\<lparr>db_proofs := filter (\<lambda>q. secret q \<noteq> secret p) (db_proofs st) @ [p]\<rparr>)"

definition invalidate_proof :: "Proof \<Rightarrow> wallet \<Rightarrow> wallet" where
  "invalidate_proof p st =
     log_event (InvalidateProof p)
       (st\<lparr>db_proofs := filter (\<lambda>q. secret q \<noteq> secret p) (db_proofs st),
           db_spent := db_spent st @ [secret p]\<rparr>)"

definition secret_used :: "string \<Rightarrow> wallet \<Rightarrow> bool \<times> wallet" where
  "secret_used s st =
     (s \<in> set (map secret (db_proofs st)) \<or> s \<in> set (db_spent st), log_event (SecretUsed s) st)"

definition update_proof_reserved :: "Proof \<Rightarrow> bool \<Rightarrow> string \<Rightarrow> wallet \<Rightarrow> wallet" where
  "update_proof_reserved p flag sid st =
     log_event (UpdateProofReserved p flag sid)
       (st\<lparr>db_proofs :=
             map (\<lambda>q. if secret q = secret p then q\<lparr>reserved := flag, send_id := Some sid\<rparr> else q)
               (db_proofs st)\<rparr>)"

section \<open>LedgerAPI\<close>

text \<open>
  \<^verbatim>\<open>_generate_secret\<close> draws the next random string; the comprehension
  \<^verbatim>\<open>[self._generate_secret() for _ in range(n)]\<close> draws \<open>n\<close> of them in turn.
\<close>

definition generate_secret :: "world \<Rightarrow> wallet \<Rightarrow> string \<times> wallet" where
  "generate_secret w st = (token_urlsafe w (drawn st), st\<lparr>drawn := Suc (drawn st)\<rparr>)"

fun generate_secret_list :: "world \<Rightarrow> nat \<Rightarrow> wallet \<Rightarrow> string list \<times> wallet" where
  "generate_secret_list w 0 st = ([], st)"
| "generate_secret_list w (Suc n) st =
     (let (s, st1) = generate_secret w st;
          (ss, st2) = generate_secret_list w n st1
      in (s # ss, st2))"

text \<open>
  \<^verbatim>\<open>
  def generate_secrets(self, secret, n):
      if len(secret.split("P2SH:")) == 2:
          return [f"{secret}:{self._generate_secret()}" for i in range(n)]
      return [f"{i}:{secret}" for i in range(n)]
  \<close>
\<close>

fun p2sh_secrets :: "world \<Rightarrow> string \<Rightarrow> int list \<Rightarrow> wallet \<Rightarrow> string list \<times> wallet" where
  "p2sh_secrets w base [] st = ([], st)"
| "p2sh_secrets w base (i # rest) st =
     (let (r, st1) = generate_secret w st;
          (ss, st2) = p2sh_secrets w base rest st1
      in ((base @ '':'' @ r) # ss, st2))"

definition generate_secrets :: "world \<Rightarrow> string \<Rightarrow> int \<Rightarrow> wallet \<Rightarrow> string list \<times> wallet" where
  "generate_secrets w base n st =
     (if length (str_split base ''P2SH:'') = 2 then p2sh_secrets w base (py_range n) st
      else (map (\<lambda>i. str_int i @ '':'' @ base) (py_range n), st))"

text \<open>
  \<^verbatim>\<open>
  async def _check_used_secrets(self, secrets):
      for s in secrets:
          if await secret_used(s, db=self.db):
              raise Exception(f"secret already used: {s}")
  \<close>
\<close>

fun check_used_secrets :: "string list \<Rightarrow> wallet \<Rightarrow> (error + unit) \<times> wallet" where
  "check_used_secrets [] st = (Inr (), st)"
| "check_used_secrets (s # ss) st =
     (let (used, st1) = secret_used s st
      in if used then (Inl (Exception (''secret already used: '' @ s)), st1)
         else check_used_secrets ss st1)"

text \<open>
  \<^verbatim>\<open>_construct_outputs\<close>: one blinded message and one blinding factor per pair of
  \<^verbatim>\<open>zip(secrets, amounts)\<close>, after the assertion that the two lists are equally long.
\<close>

definition construct_outputs ::
    "world \<Rightarrow> int list \<Rightarrow> string list \<Rightarrow> error + (BlindedMessage list \<times> string list)" where
  "construct_outputs w amounts secrets =
     (if length amounts \<noteq> length secrets then
        Inl (AssertionError (''len(amounts)='' @ str_int (int (length amounts))
               @ '' not equal to len(secrets)='' @ str_int (int (length secrets))))
      else Inr (map (\<lambda>(s, a). BlindedMessage a (fst (step1_alice w s))) (zip secrets amounts),
                map (\<lambda>(s, a). snd (step1_alice w s)) (zip secrets amounts)))"

text \<open>
  \<^verbatim>\<open>
  def _construct_proofs(self, promises, secrets, rs):
      proofs = []
      for promise, secret, r in zip(promises, secrets, rs):
          C_ = PublicKey(bytes.fromhex(promise.C_), raw=True)
          C = b_dhke.step3_alice(C_, r, self.keys[promise.amount])
          proof = Proof(amount=promise.amount, C=C.serialize().hex(), secret=secret)
          proofs.append(proof)
      return proofs
  \<close>
  A signature that is not a curve point and an amount without a key in the keyset raise.
\<close>

fun construct_proofs_loop ::
    "world \<Rightarrow> (BlindedSignature \<times> string \<times> string) list \<Rightarrow> Proof list \<Rightarrow> error + Proof list" where
  "construct_proofs_loop w [] acc = Inr acc"
| "construct_proofs_loop w ((promise, s, r) # rest) acc =
     (if \<not> valid_point w (C' promise) then Inl ValueError
      else case keys w (sig_amount promise) of
             None \<Rightarrow> Inl KeyError
           | Some k \<Rightarrow>
               construct_proofs_loop w rest
                 (acc @ [\<lparr>amount = sig_amount promise, C = step3_alice w (C' promise) r k,
                          secret = s, reserved = False, send_id = None\<rparr>]))"

definition construct_proofs ::
    "world \<Rightarrow> BlindedSignature list \<Rightarrow> string list \<Rightarrow> string list \<Rightarrow> error + Proof list" where
  "construct_proofs w promises secrets rs =
     construct_proofs_loop w (zip promises (zip secrets rs)) []"

text \<open>
  \<^verbatim>\<open>LedgerAPI.mint(amounts, payment_hash)\<close>: fresh secrets, the check against the
  store, the outputs, then the request. \<open>mint_answer\<close> is what the method does with the
  answer: \<^verbatim>\<open>raise_for_status\<close>, \<^verbatim>\<open>resp.json()\<close>, the test for an
  \<^verbatim>\<open>error\<close> field, and the proofs of the promises.
\<close>

definition mint_answer ::
    "world \<Rightarrow> string list \<Rightarrow> string list \<Rightarrow> BlindedSignature list response
       \<Rightarrow> error + Proof list" where
  "mint_answer w secrets rs resp =
     (case resp of
        HttpFailure \<Rightarrow> Inl HTTPError
      | NotJson \<Rightarrow> Inl (Exception ''Unkown mint error.'')
      | ErrorBody msg \<Rightarrow> Inl (Exception (''Error: '' @ msg))
      | Body promises \<Rightarrow> construct_proofs w promises secrets rs)"

definition LedgerAPI_mint ::
    "world \<Rightarrow> int list \<Rightarrow> string option \<Rightarrow> wallet \<Rightarrow> (error + Proof list) \<times> wallet" where
  "LedgerAPI_mint w amounts payment_hash st =
     (let (secrets, st1) = generate_secret_list w (length amounts) st
      in case check_used_secrets secrets st1 of
           (Inl e, st2) \<Rightarrow> (Inl e, st2)
         | (Inr u, st2) \<Rightarrow>
             (case construct_outputs w amounts secrets of
                Inl e \<Rightarrow> (Inl e, st2)
              | Inr (payloads, rs) \<Rightarrow>
                  (let st3 = log_event (Post (MintRequest payloads payment_hash)) st2
                   in (mint_answer w secrets rs (post_mint w payloads payment_hash), st3))))"

text \<open>
  The secrets of \<^verbatim>\<open>LedgerAPI.split\<close>: all random when \<^verbatim>\<open>scnd_secret\<close> is
  \<^verbatim>\<open>None\<close>; otherwise the secrets to send are generated from it first (with the
  assertion on their number), the random secrets to keep after them, and the list is
  the secrets to keep followed by the secrets to send.
\<close>

definition split_secrets ::
    "world \<Rightarrow> int list \<Rightarrow> int list \<Rightarrow> string option \<Rightarrow> wallet \<Rightarrow> (error + string list) \<times> wallet" where
  "split_secrets w frst_outputs scnd_outputs scnd_secret st =
     (case scnd_secret of
        None \<Rightarrow>
          (let (secrets, st1) = generate_secret_list w (length (frst_outputs @ scnd_outputs)) st
           in (Inr secrets, st1))
      | Some base \<Rightarrow>
          (let (scnd_secrets, st1) = generate_secrets w base (int (length scnd_outputs)) st
           in if length scnd_secrets \<noteq> length scnd_outputs then
                (Inl (AssertionError ''number of scnd_secrets does not match number of ouptus.''), st1)
              else (let (frst_secrets, st2) = generate_secret_list w (length frst_outputs) st1
                    in (Inr (frst_secrets @ scnd_secrets), st2))))"

text \<open>
  The candidate output secrets of a call: the secrets that \<^verbatim>\<open>LedgerAPI.mint\<close> and
  \<^verbatim>\<open>LedgerAPI.split\<close> generate and hand to \<^verbatim>\<open>_check_used_secrets\<close>.
\<close>

definition mint_candidates :: "world \<Rightarrow> int list \<Rightarrow> wallet \<Rightarrow> string list" where
  "mint_candidates w amounts st = fst (generate_secret_list w (length amounts) st)"

definition split_candidates ::
    "world \<Rightarrow> Proof list \<Rightarrow> int \<Rightarrow> string option \<Rightarrow> wallet \<Rightarrow> string list" where
  "split_candidates w proofs_in amt scnd_secret st =
     (case fst (split_secrets w (amount_split (sum_list (map amount proofs_in) - amt))
                  (amount_split amt) scnd_secret st) of
        Inl e \<Rightarrow> []
      | Inr secrets \<Rightarrow> secrets)"

text \<open>
  What \<^verbatim>\<open>LedgerAPI.split\<close> does with the answer of the mint:
  \<^verbatim>\<open>
  resp.raise_for_status()
  try:
      promises_dict = resp.json()
  except:
      raise Exception("Unkown mint error.")
  if "error" in promises_dict:
      raise Exception("Mint Error: {}".format(promises_dict["error"]))
  promises_fst = [BlindedSignature.from_dict(p) for p in promises_dict["fst"]]
  promises_snd = [BlindedSignature.from_dict(p) for p in promises_dict["snd"]]
  frst_proofs = self._construct_proofs(
      promises_fst, secrets[: len(promises_fst)], rs[: len(promises_fst)])
  scnd_proofs = self._construct_proofs(
      promises_snd, secrets[len(promises_fst) :], rs[len(promises_fst) :])
  return frst_proofs, scnd_proofs
  \<close>
\<close>

definition split_answer ::
    "world \<Rightarrow> string list \<Rightarrow> string list
       \<Rightarrow> (BlindedSignature list \<times> BlindedSignature list) response
       \<Rightarrow> error + Proof list \<times> Proof list" where
  "split_answer w secrets rs resp =
     (case resp of
        HttpFailure \<Rightarrow> Inl HTTPError
      | NotJson \<Rightarrow> Inl (Exception ''Unkown mint error.'')
      | ErrorBody msg \<Rightarrow> Inl (Exception (''Mint Error: '' @ msg))
      | Body (promises_fst, promises_snd) \<Rightarrow>
          (case construct_proofs w promises_fst
                  (take (length promises_fst) secrets) (take (length promises_fst) rs) of
             Inl e \<Rightarrow> Inl e
           | Inr frst_proofs \<Rightarrow>
               (case construct_proofs w promises_snd
                       (drop (length promises_fst) secrets) (drop (length promises_fst) rs) of
                  Inl e \<Rightarrow> Inl e
                | Inr scnd_proofs \<Rightarrow> Inr (frst_proofs, scnd_proofs))))"

text \<open>
  \<^verbatim>\<open>LedgerAPI.split(proofs, amount, scnd_secret)\<close>. The source computes
  \<^verbatim>\<open>total - amount\<close> and \<^verbatim>\<open>amount\<close> and splits both; it does not compare
  \<^verbatim>\<open>amount\<close> with \<^verbatim>\<open>total\<close> or with zero.
  \<^verbatim>\<open>
  total = sum([p["amount"] for p in proofs])
  frst_amt, scnd_amt = total - amount, amount
  frst_outputs = amount_split(frst_amt)
  scnd_outputs = amount_split(scnd_amt)
  amounts = frst_outputs + scnd_outputs
  ... (the secrets)
  assert len(secrets) == len(amounts), "number of secrets does not match number of outputs"
  await self._check_used_secrets(secrets)
  payloads, rs = self._construct_outputs(amounts, secrets)
  split_payload = SplitRequest(proofs=proofs, amount=amount, outputs=payloads)
  resp = requests.post(self.url + "/split", json=split_payload.dict())
  ... (the answer)
  \<close>
\<close>

definition LedgerAPI_split ::
    "world \<Rightarrow> Proof list \<Rightarrow> int \<Rightarrow> string option \<Rightarrow> wallet
       \<Rightarrow> (error + Proof list \<times> Proof list) \<times> wallet" where
  "LedgerAPI_split w proofs_in amt scnd_secret st =
     (let total = sum_list (map amount proofs_in);
          frst_amt = total - amt;
          scnd_amt = amt;
          frst_outputs = amount_split frst_amt;
          scnd_outputs = amount_split scnd_amt;
          amounts = frst_outputs @ scnd_outputs
      in case split_secrets w frst_outputs scnd_outputs scnd_secret st of
           (Inl e, st1) \<Rightarrow> (Inl e, st1)
         | (Inr secrets, st1) \<Rightarrow>
             if length secrets \<noteq> length amounts then
               (Inl (AssertionError ''number of secrets does not match number of outputs''), st1)
             else
               (case check_used_secrets secrets st1 of
                  (Inl e, st2) \<Rightarrow> (Inl e, st2)
                | (Inr u, st2) \<Rightarrow>
                    (case construct_outputs w amounts secrets of
                       Inl e \<Rightarrow> (Inl e, st2)
                     | Inr (payloads, rs) \<Rightarrow>
                         (let st3 = log_event (Post (SplitRequest proofs_in amt payloads)) st2
                          in (split_answer w secrets rs (post_split w proofs_in amt payloads),
                              st3)))))"

text \<open>
  \<^verbatim>\<open>LedgerAPI.check_spendable\<close> and \<^verbatim>\<open>LedgerAPI.pay_lightning\<close> post the request and
  return the JSON object of the answer as it is. For \<^verbatim>\<open>/melt\<close> the object is its
  \<^verbatim>\<open>paid\<close> entry, \<open>None\<close> when it has none; for \<^verbatim>\<open>/check\<close> an object with an
  \<^verbatim>\<open>error\<close> field is kept as \<open>Inl\<close> of the message.
\<close>

definition LedgerAPI_check_spendable ::
    "world \<Rightarrow> Proof list \<Rightarrow> wallet \<Rightarrow> (error + (string + (int \<times> bool) list)) \<times> wallet" where
  "LedgerAPI_check_spendable w proofs_in st =
     (let st1 = log_event (Post (CheckRequest proofs_in)) st
      in case post_check w proofs_in of
           HttpFailure \<Rightarrow> (Inl HTTPError, st1)
         | NotJson \<Rightarrow> (Inl JSONDecodeError, st1)
         | ErrorBody msg \<Rightarrow> (Inr (Inl msg), st1)
         | Body items \<Rightarrow> (Inr (Inr items), st1))"

definition LedgerAPI_pay_lightning ::
    "world \<Rightarrow> Proof list \<Rightarrow> string \<Rightarrow> wallet \<Rightarrow> (error + bool option) \<times> wallet" where
  "LedgerAPI_pay_lightning w proofs_in invoice st =
     (let st1 = log_event (Post (MeltRequest proofs_in invoice)) st
      in case post_melt w proofs_in invoice of
           HttpFailure \<Rightarrow> (Inl HTTPError, st1)
         | NotJson \<Rightarrow> (Inl JSONDecodeError, st1)
         | ErrorBody msg \<Rightarrow> (Inr None, st1)
         | Body paid \<Rightarrow> (Inr (Some paid), st1))"

section \<open>Wallet\<close>

text \<open>\<^verbatim>\<open>_store_proofs\<close> stores each proof in turn.\<close>

definition store_proofs :: "Proof list \<Rightarrow> wallet \<Rightarrow> wallet" where
  "store_proofs ps st = fold store_proof ps st"

text \<open>
  \<^verbatim>\<open>
  async def mint(self, amount, payment_hash=None):
      split = amount_split(amount)
      proofs = await super().mint(split, payment_hash)
      if proofs == []:
          raise Exception("received no proofs.")
      await self._store_proofs(proofs)
      self.proofs += proofs
      return proofs
  \<close>
\<close>

definition Wallet_mint ::
    "world \<Rightarrow> int \<Rightarrow> string option \<Rightarrow> wallet \<Rightarrow> (error + Proof list) \<times> wallet" where
  "Wallet_mint w amt payment_hash st =
     (let split = amount_split amt
      in case LedgerAPI_mint w split payment_hash st of
           (Inl e, st1) \<Rightarrow> (Inl e, st1)
         | (Inr new_proofs, st1) \<Rightarrow>
             if new_proofs = [] then (Inl (Exception ''received no proofs.''), st1)
             else (let st2 = store_proofs new_proofs st1;
                       st3 = set_proofs (proofs st2 @ new_proofs) st2
                   in (Inr new_proofs, st3)))"

text \<open>
  \<^verbatim>\<open>
  async def split(self, proofs, amount, scnd_secret=None):
      assert len(proofs) > 0, ValueError("no proofs provided.")
      frst_proofs, scnd_proofs = await super().split(proofs, amount, scnd_secret)
      if len(frst_proofs) == 0 and len(scnd_proofs) == 0:
          raise Exception("received no splits.")
      used_secrets = [p["secret"] for p in proofs]
      self.proofs = list(filter(lambda p: p["secret"] not in used_secrets, self.proofs))
      self.proofs += frst_proofs + scnd_proofs
      await self._store_proofs(frst_proofs + scnd_proofs)
      for proof in proofs:
          await invalidate_proof(proof, db=self.db)
      return frst_proofs, scnd_proofs
  \<close>
\<close>

definition Wallet_split ::
    "world \<Rightarrow> Proof list \<Rightarrow> int \<Rightarrow> string option \<Rightarrow> wallet
       \<Rightarrow> (error + Proof list \<times> Proof list) \<times> wallet" where
  "Wallet_split w proofs_in amt scnd_secret st =
     (if \<not> 0 < length proofs_in then (Inl (AssertionError ''no proofs provided.''), st)
      else case LedgerAPI_split w proofs_in amt scnd_secret st of
             (Inl e, st1) \<Rightarrow> (Inl e, st1)
           | (Inr (frst_proofs, scnd_proofs), st1) \<Rightarrow>
               if length frst_proofs = 0 \<and> length scnd_proofs = 0 then
                 (Inl (Exception ''received no splits.''), st1)
               else
                 (let used_secrets = map secret proofs_in;
                      st2 = set_proofs (filter (\<lambda>p. secret p \<notin> set used_secrets) (proofs st1)) st1;
                      st3 = set_proofs (proofs st2 @ (frst_proofs @ scnd_proofs)) st2;
                      st4 = store_proofs (frst_proofs @ scnd_proofs) st3;
                      st5 = fold invalidate_proof proofs_in st4
                  in (Inr (frst_proofs, scnd_proofs), st5)))"

text \<open>
  \<^verbatim>\<open>
  async def invalidate(self, proofs):
      spendables = await self.check_spendable(proofs)
      invalidated_proofs = []
      for idx, spendable in spendables.items():
          if not spendable:
              invalidated_proofs.append(proofs[int(idx)])
              await invalidate_proof(proofs[int(idx)], db=self.db)
      invalidate_secrets = [p["secret"] for p in invalidated_proofs]
      self.proofs = list(filter(lambda p: p["secret"] not in invalidate_secrets, self.proofs))
  \<close>
  An answer with an \<^verbatim>\<open>error\<close> field is an object with that one item: its key is not
  a number, so \<^verbatim>\<open>int(idx)\<close> raises when the message is empty (hence false), and
  the item is skipped otherwise.
\<close>

fun invalidate_loop ::
    "Proof list \<Rightarrow> (int \<times> bool) list \<Rightarrow> Proof list \<Rightarrow> wallet \<Rightarrow> (error + Proof list) \<times> wallet" where
  "invalidate_loop proofs_in [] invalidated_proofs st = (Inr invalidated_proofs, st)"
| "invalidate_loop proofs_in ((idx, spendable) # rest) invalidated_proofs st =
     (if \<not> spendable then
        (case py_index proofs_in idx of
           Inl e \<Rightarrow> (Inl e, st)
         | Inr p \<Rightarrow>
             invalidate_loop proofs_in rest (invalidated_proofs @ [p]) (invalidate_proof p st))
      else invalidate_loop proofs_in rest invalidated_proofs st)"

definition Wallet_invalidate :: "world \<Rightarrow> Proof list \<Rightarrow> wallet \<Rightarrow> (error + unit) \<times> wallet" where
  "Wallet_invalidate w proofs_in st =
     (case LedgerAPI_check_spendable w proofs_in st of
        (Inl e, st1) \<Rightarrow> (Inl e, st1)
      | (Inr spendables, st1) \<Rightarrow>
          (case (case spendables of
                   Inl msg \<Rightarrow> if msg = [] then (Inl ValueError, st1) else (Inr [], st1)
                 | Inr items \<Rightarrow> invalidate_loop proofs_in items [] st1) of
             (Inl e, st2) \<Rightarrow> (Inl e, st2)
           | (Inr invalidated_proofs, st2) \<Rightarrow>
               (let invalidate_secrets = map secret invalidated_proofs
                in (Inr (),
                    set_proofs (filter (\<lambda>p. secret p \<notin> set invalidate_secrets) (proofs st2)) st2))))"

text \<open>
  \<^verbatim>\<open>
  async def pay_lightning(self, proofs, invoice):
      status = await super().pay_lightning(proofs, invoice)
      if status["paid"] == True:
          await self.invalidate(proofs)
      else:
          raise Exception("could not pay invoice.")
      return status["paid"]
  \<close>
\<close>

definition Wallet_pay_lightning ::
    "world \<Rightarrow> Proof list \<Rightarrow> string \<Rightarrow> wallet \<Rightarrow> (error + bool) \<times> wallet" where
  "Wallet_pay_lightning w proofs_in invoice st =
     (case LedgerAPI_pay_lightning w proofs_in invoice st of
        (Inl e, st1) \<Rightarrow> (Inl e, st1)
      | (Inr None, st1) \<Rightarrow> (Inl KeyError, st1)
      | (Inr (Some paid), st1) \<Rightarrow>
          if paid = True then
            (case Wallet_invalidate w proofs_in st1 of
               (Inl e, st2) \<Rightarrow> (Inl e, st2)
             | (Inr u, st2) \<Rightarrow> (Inr paid, st2))
          else (Inl (Exception ''could not pay invoice.''), st1))"

text \<open>
  \<^verbatim>\<open>
  async def split_to_send(self, proofs, amount, scnd_secret=None):
      if len([p for p in proofs if not p.reserved]) <= 0:
          raise Exception("balance too low.")
      return await self.split([p for p in proofs if not p.reserved], amount, scnd_secret)
  \<close>
\<close>

definition Wallet_split_to_send ::
    "world \<Rightarrow> Proof list \<Rightarrow> int \<Rightarrow> string option \<Rightarrow> wallet
       \<Rightarrow> (error + Proof list \<times> Proof list) \<times> wallet" where
  "Wallet_split_to_send w proofs_in amt scnd_secret st =
     (if length (filter (\<lambda>p. \<not> reserved p) proofs_in) \<le> 0 then
        (Inl (Exception ''balance too low.''), st)
      else Wallet_split w (filter (\<lambda>p. \<not> reserved p) proofs_in) amt scnd_secret st)"

text \<open>
  \<^verbatim>\<open>
  async def set_reserved(self, proofs, reserved):
      uuid_str = str(uuid.uuid1())
      for proof in proofs:
          proof.reserved = True
          await update_proof_reserved(proof, reserved=reserved, send_id=uuid_str, db=self.db)
  \<close>
  The assignment changes the proof object in memory; the model returns the proofs of
  the batch as they are after the call, next to the wallet.
\<close>

fun set_reserved_loop ::
    "string \<Rightarrow> bool \<Rightarrow> Proof list \<Rightarrow> wallet \<Rightarrow> Proof list \<times> wallet" where
  "set_reserved_loop uuid_str flag [] st = ([], st)"
| "set_reserved_loop uuid_str flag (p # rest) st =
     (let p1 = p\<lparr>reserved := True\<rparr>;
          st1 = update_proof_reserved p1 flag uuid_str st;
          (rest1, st2) = set_reserved_loop uuid_str flag rest st1
      in (p1 # rest1, st2))"

definition Wallet_set_reserved ::
    "world \<Rightarrow> Proof list \<Rightarrow> bool \<Rightarrow> wallet \<Rightarrow> Proof list \<times> wallet" where
  "Wallet_set_reserved w proofs_in flag st =
     (let uuid_str = uuid1 w (uuids st)
      in set_reserved_loop uuid_str flag proofs_in (st\<lparr>uuids := Suc (uuids st)\<rparr>))"

text \<open>The two balances: the sum over \<^verbatim>\<open>self.proofs\<close>, and over those not reserved.\<close>

definition balance :: "wallet \<Rightarrow> int" where
  "balance st = sum_list (map amount (proofs st))"

definition available_balance :: "wallet \<Rightarrow> int" where
  "available_balance st = sum_list (map amount (filter (\<lambda>p. \<not> reserved p) (proofs st)))"

section \<open>Notions the properties are stated with\<close>

text \<open>
  The powers of two of the set bits of \<open>n\<close>, lowest first, \<open>k\<close> being the position of
  the lowest bit of \<open>n\<close>; and the number of set bits of a non-negative integer.
\<close>

function bit_powers :: "nat \<Rightarrow> nat \<Rightarrow> int list" where
  "bit_powers k n =
     (if n = 0 then [] else (if odd n then [2 ^ k] else []) @ bit_powers (Suc k) (n div 2))"
  by pat_completeness auto
termination
  by (relation "measure snd") auto

function popcount_nat :: "nat \<Rightarrow> nat" where
  "popcount_nat n = (if n = 0 then 0 else (if odd n then 1 else 0) + popcount_nat (n div 2))"
  by pat_completeness auto
termination
  by (relation "measure id") auto

definition popcount :: "int \<Rightarrow> nat" where
  "popcount n = popcount_nat (nat n)"

declare bit_powers.simps [simp del]
declare popcount_nat.simps [simp del]
declare bin_digits.simps [simp del]
declare str_nat.simps [simp del]
declare str_split_from.simps [simp del]

text \<open>
  What a call added to the trace, whether an event is a request to the mint, whether
  it writes to the store or to \<^verbatim>\<open>self.proofs\<close>, the proofs of a pile that are not
  reserved, and the proofs of a pile that a \<^verbatim>\<open>/check\<close> answer reports as not
  spendable.
\<close>

definition new_events :: "wallet \<Rightarrow> wallet \<Rightarrow> event list" where
  "new_events st st' = drop (length (trace st)) (trace st')"

fun is_post :: "event \<Rightarrow> bool" where
  "is_post (Post r) = True"
| "is_post e = False"

fun is_write :: "event \<Rightarrow> bool" where
  "is_write (StoreProof p) = True"
| "is_write (InvalidateProof p) = True"
| "is_write (UpdateProofReserved p flag sid) = True"
| "is_write (SetProofs ps) = True"
| "is_write e = False"

definition unreserved :: "Proof list \<Rightarrow> Proof list" where
  "unreserved pile = filter (\<lambda>p. \<not> reserved p) pile"

definition reported_spent :: "Proof list \<Rightarrow> (int \<times> bool) list \<Rightarrow> Proof list" where
  "reported_spent pile items = map (\<lambda>(idx, spendable). pile ! nat idx) (filter (\<lambda>(idx, spendable). \<not> spendable) items)"

section \<open>A concrete wallet and mock mints\<close>

text \<open>
  The scenario S3 of the spec: a wallet holding proofs of 8, 4 and 1, talking to a mock
  mint that signs the outputs of a split in their order (the first as many as the
  amount to keep has set bits as \<^verbatim>\<open>fst\<close>, the others as \<^verbatim>\<open>snd\<close>), rejects a split
  amount outside the pile, pays every invoice and afterwards reports every melted proof
  as spent. The random secrets are \<open>r0\<close>, \<open>r1\<close>, ...
\<close>

definition example_pile :: "Proof list" where
  "example_pile =
     [\<lparr>amount = 8, C = ''c8'', secret = ''in8'', reserved = False, send_id = None\<rparr>,
      \<lparr>amount = 4, C = ''c4'', secret = ''in4'', reserved = False, send_id = None\<rparr>,
      \<lparr>amount = 1, C = ''c1'', secret = ''in1'', reserved = False, send_id = None\<rparr>]"

definition example_wallet :: wallet where
  "example_wallet =
     \<lparr>proofs = example_pile, db_proofs = example_pile, db_spent = [],
      drawn = 0, uuids = 0, trace = []\<rparr>"

definition mock_sign :: "BlindedMessage \<Rightarrow> BlindedSignature" where
  "mock_sign m = BlindedSignature (msg_amount m) (''sig-'' @ B' m)"

definition mock_split ::
    "Proof list \<Rightarrow> int \<Rightarrow> BlindedMessage list
       \<Rightarrow> (BlindedSignature list \<times> BlindedSignature list) response" where
  "mock_split pile amt outs =
     (if amt < 0 \<or> sum_list (map amount pile) < amt then
        ErrorBody ''split amount is higher than the total sum''
      else (let k = length (amount_split (sum_list (map amount pile) - amt))
            in Body (map mock_sign (take k outs), map mock_sign (drop k outs))))"

definition example_world :: world where
  "example_world =
     \<lparr>token_urlsafe = (\<lambda>i. ''r'' @ str_nat i),
      uuid1 = (\<lambda>i. ''uuid-'' @ str_nat i),
      valid_point = (\<lambda>c. True),
      step1_alice = (\<lambda>s. (''B-'' @ s, ''r-'' @ s)),
      step3_alice = (\<lambda>c r k. c @ ''-'' @ r @ ''-'' @ k),
      keys = (\<lambda>a. if a \<in> set [1, 2, 4, 8, 16, 32, 64, 128] then Some (''K'' @ str_int a) else None),
      post_mint = (\<lambda>outs payment_hash. Body (map mock_sign outs)),
      post_split = mock_split,
      post_check = (\<lambda>pile. Body (map (\<lambda>i. (int i, False)) [0..<length pile])),
      post_melt = (\<lambda>pile invoice. Body True)\<rparr>"

text \<open>What the split of 5 out of the example pile returns with this mint.\<close>

definition example_keep :: "Proof list" where
  "example_keep =
     [\<lparr>amount = 8, C = ''sig-B-r0-r-r0-K8'', secret = ''r0'', reserved = False, send_id = None\<rparr>]"

definition example_send :: "Proof list" where
  "example_send =
     [\<lparr>amount = 1, C = ''sig-B-r1-r-r1-K1'', secret = ''r1'', reserved = False, send_id = None\<rparr>,
      \<lparr>amount = 4, C = ''sig-B-r2-r-r2-K4'', secret = ''r2'', reserved = False, send_id = None\<rparr>]"

text \<open>A mint that pays the invoice and still reports the melted proofs as spendable.\<close>

definition lagging_world :: world where
  "lagging_world =
     example_world\<lparr>post_check := (\<lambda>pile. Body (map (\<lambda>i. (int i, True)) [0..<length pile]))\<rparr>"

text \<open>A mint that fails to pay the invoice.\<close>

definition unpaid_world :: world where
  "unpaid_world = example_world\<lparr>post_melt := (\<lambda>pile invoice. Body False)\<rparr>"

text \<open>The scenario S4: a store that already knows the secret the generator proposes first.\<close>

definition tainted_wallet :: wallet where
  "tainted_wallet = example_wallet\<lparr>db_spent := [''r0'']\<rparr>"

section \<open>The denomination split is the binary decomposition\<close>

lemma split_loop_eq:
  "split_loop ps rv = rv @ map (\<lambda>(i, b). 2 ^ i) (filter (\<lambda>(i, b). b = CHR ''1'') ps)"
  by (induction ps rv rule: split_loop.induct) auto

lemma set_bits_rev_digits:
  "map (\<lambda>(i, b). 2 ^ i) (filter (\<lambda>(i, b). b = CHR ''1'') (enumerate k (rev (bin_digits n)))) = bit_powers k n"
proof (induction n arbitrary: k rule: bin_digits.induct)
  case (1 n)
  show ?case
  proof (cases "n < 2")
    case True
    then have "n = 0 \<or> n = 1" by auto
    then show ?thesis
      by (auto simp: bin_digits.simps [of 0] bin_digits.simps [of 1] bin_digits.simps [of "Suc 0"] bit_powers.simps [of _ 0] bit_powers.simps [of _ 1] bit_powers.simps [of _ "Suc 0"])
  next
    case False
    then have "rev (bin_digits n) = (if even n then CHR ''0'' else CHR ''1'') # rev (bin_digits (n div 2))"
      by (subst bin_digits.simps) simp
    with False 1 [of "Suc k"] show ?thesis
      by (subst bit_powers.simps) auto
  qed
qed

lemma get_output_split_nonneg:
  "0 \<le> n \<Longrightarrow> get_output_split n = bit_powers 0 (nat n)"
  by (simp add: get_output_split_def bin_def split_loop_eq set_bits_rev_digits)

lemma sum_bit_powers: "sum_list (bit_powers k n) = 2 ^ k * int n"
proof (induction k n rule: bit_powers.induct)
  case (1 k n)
  show ?case
  proof (cases "n = 0")
    case True
    then show ?thesis by (simp add: bit_powers.simps)
  next
    case False
    have "int n = 2 * int (n div 2) + (if odd n then 1 else 0)"
      by (auto elim: oddE)
    with False 1 show ?thesis
      by (subst bit_powers.simps) (auto simp: algebra_simps)
  qed
qed

lemma bits_step:
  "{i. bit n i} = (if odd n then {0} else {}) \<union> Suc ` {i. bit (n div 2) i}" for n :: nat
proof -
  have "bit n i \<longleftrightarrow> (i = 0 \<and> odd n) \<or> (\<exists>j. i = Suc j \<and> bit (n div 2) j)" for i
    by (cases i) (simp_all add: bit_0 bit_Suc)
  then show ?thesis by auto
qed

lemma set_bit_powers: "set (bit_powers k n) = (\<lambda>i. 2 ^ (k + i)) ` {i. bit n i}"
proof (induction k n rule: bit_powers.induct)
  case (1 k n)
  show ?case
  proof (cases "n = 0")
    case True
    then show ?thesis by (simp add: bit_powers.simps)
  next
    case False
    have "set (bit_powers k n) = (if odd n then {2 ^ k} else {}) \<union> set (bit_powers (Suc k) (n div 2))"
      using False by (subst bit_powers.simps) simp
    also have "\<dots> = (if odd n then {2 ^ k} else {}) \<union> (\<lambda>i. 2 ^ (Suc k + i)) ` {i. bit (n div 2) i}"
      using False 1 by simp
    also have "\<dots> = (\<lambda>i. 2 ^ (k + i)) ` ((if odd n then {0} else {}) \<union> Suc ` {i. bit (n div 2) i})"
      by (simp add: image_Un image_image)
    finally show ?thesis by (simp only: bits_step [symmetric])
  qed
qed

lemma bit_powers_lower: "x \<in> set (bit_powers k n) \<Longrightarrow> 2 ^ k \<le> x"
  by (auto simp: set_bit_powers power_add)

lemma sorted_bit_powers: "sorted_wrt (<) (bit_powers k n)"
proof (induction k n rule: bit_powers.induct)
  case (1 k n)
  show ?case
  proof (cases "n = 0")
    case True
    then show ?thesis by (simp add: bit_powers.simps)
  next
    case False
    have "(2::int) ^ k < x" if "x \<in> set (bit_powers (Suc k) (n div 2))" for x
    proof -
      have "(0::int) < 2 ^ k" by simp
      moreover have "2 * 2 ^ k \<le> x" using bit_powers_lower [OF that] by simp
      ultimately show ?thesis by linarith
    qed
    with False 1 show ?thesis
      by (subst bit_powers.simps) auto
  qed
qed


text \<open>
  C1. For every non-negative integer \<open>n\<close>, \<^verbatim>\<open>_get_output_split(n)\<close> is the list of the
  distinct powers of two whose sum is \<open>n\<close>: its elements are exactly the powers
  \<open>2 ^ k\<close> for the set bits \<open>k\<close> of \<open>n\<close>, they are in strictly ascending order (so no
  power occurs twice), and they add up to \<open>n\<close>. The split of 0 is the empty list and
  the split of 13 is [1, 4, 8].
\<close>

theorem get_output_split_binary:
  "0 \<le> n \<Longrightarrow>
     set (get_output_split n) = {2 ^ k | k. bit n k}
     \<and> sorted_wrt (<) (get_output_split n)
     \<and> sum_list (get_output_split n) = n
     \<and> get_output_split 0 = []
     \<and> get_output_split 13 = [1, 4, 8]"
proof -
  assume n: "0 \<le> n"
  have "set (get_output_split n) = {2 ^ k | k. bit n k}"
    using n by (auto simp: get_output_split_nonneg set_bit_powers bit_nat_iff)
  moreover have "sorted_wrt (<) (get_output_split n)"
    using n by (simp add: get_output_split_nonneg sorted_bit_powers)
  moreover have "sum_list (get_output_split n) = n"
    using n by (simp add: get_output_split_nonneg sum_bit_powers)
  moreover have "get_output_split 0 = []"
    by code_simp
  moreover have "get_output_split 13 = [1, 4, 8]"
    by code_simp
  ultimately show ?thesis by blast
qed

theorem get_output_split_binary_witness:
  "(0::int) \<le> 13
     \<and> set (get_output_split 13) = {2 ^ k | k. bit (13::int) k}
     \<and> sorted_wrt (<) (get_output_split 13)
     \<and> sum_list (get_output_split 13) = 13
     \<and> get_output_split 0 = []
     \<and> get_output_split 13 = [1, 4, 8]"
proof -
  have h: "(0::int) \<le> 13" by simp
  from h get_output_split_binary [OF h] show ?thesis by (rule conjI)
qed

section \<open>What the ledger calls do, step by step\<close>

lemma generate_secret_list_eq:
  "generate_secret_list w n st =
     (map (token_urlsafe w) [drawn st..<drawn st + n], st\<lparr>drawn := drawn st + n\<rparr>)"
proof (induction n arbitrary: st)
  case 0
  then show ?case by simp
next
  case (Suc n)
  have "[drawn st..<drawn st + Suc n] = drawn st # [Suc (drawn st)..<Suc (drawn st) + n]"
    by (simp add: upt_rec)
  then show ?case
    by (simp add: Suc generate_secret_def)
qed

lemma p2sh_secrets_eq:
  "p2sh_secrets w base xs st =
     (map (\<lambda>i. base @ '':'' @ token_urlsafe w i) [drawn st..<drawn st + length xs],
      st\<lparr>drawn := drawn st + length xs\<rparr>)"
proof (induction xs arbitrary: st)
  case Nil
  then show ?case by simp
next
  case (Cons x xs)
  have "[drawn st..<drawn st + Suc (length xs)] = drawn st # [Suc (drawn st)..<Suc (drawn st) + length xs]"
    by (simp add: upt_rec)
  then show ?case
    by (simp add: Cons generate_secret_def)
qed

lemma length_py_range [simp]: "length (py_range n) = nat n"
  by (simp add: py_range_def)

lemma generate_secrets_length:
  "length (fst (generate_secrets w base n st)) = nat n"
  by (simp add: generate_secrets_def p2sh_secrets_eq)

lemma generate_secrets_frame:
  "snd (generate_secrets w base n st) = st\<lparr>drawn := drawn (snd (generate_secrets w base n st))\<rparr>"
  by (simp add: generate_secrets_def p2sh_secrets_eq)

lemma split_secrets_Inr:
  "\<exists>secrets. fst (split_secrets w frst_outputs scnd_outputs scnd_secret st) = Inr secrets
     \<and> length secrets = length frst_outputs + length scnd_outputs"
proof (cases scnd_secret)
  case None
  then show ?thesis
    by (simp add: split_secrets_def generate_secret_list_eq)
next
  case (Some base)
  obtain ss st1 where g: "generate_secrets w base (int (length scnd_outputs)) st = (ss, st1)"
    by (cases "generate_secrets w base (int (length scnd_outputs)) st")
  from generate_secrets_length [of w base "int (length scnd_outputs)" st] g
  have len: "length ss = length scnd_outputs"
    by simp
  show ?thesis
    using Some g len
    by (simp add: split_secrets_def generate_secret_list_eq)
qed

lemma split_secrets_frame:
  "snd (split_secrets w frst_outputs scnd_outputs scnd_secret st)
     = st\<lparr>drawn := drawn (snd (split_secrets w frst_outputs scnd_outputs scnd_secret st))\<rparr>"
proof (cases scnd_secret)
  case None
  then show ?thesis
    by (simp add: split_secrets_def generate_secret_list_eq)
next
  case (Some base)
  obtain ss st1 where g: "generate_secrets w base (int (length scnd_outputs)) st = (ss, st1)"
    by (cases "generate_secrets w base (int (length scnd_outputs)) st")
  from generate_secrets_frame [of w base "int (length scnd_outputs)" st] g
  have st1: "st1 = st\<lparr>drawn := drawn st1\<rparr>"
    by simp
  from generate_secrets_length [of w base "int (length scnd_outputs)" st] g
  have len: "length ss = length scnd_outputs"
    by simp
  have "st1\<lparr>drawn := d\<rparr> = st\<lparr>drawn := d\<rparr>" for d
    by (subst st1) simp
  then show ?thesis
    using Some g len
    by (simp add: split_secrets_def generate_secret_list_eq)
qed


lemma check_used_secrets_fresh:
  "\<forall>s\<in>set ss. \<not> fst (secret_used s st) \<Longrightarrow>
     check_used_secrets ss st = (Inr (), st\<lparr>trace := trace st @ map SecretUsed ss\<rparr>)"
proof (induction ss arbitrary: st)
  case Nil
  then show ?case by simp
next
  case (Cons s ss)
  let ?st1 = "log_event (SecretUsed s) st"
  have "\<forall>x\<in>set ss. \<not> fst (secret_used x ?st1)"
    using Cons.prems by (simp add: secret_used_def log_event_def)
  from Cons.IH [OF this] Cons.prems show ?case
    by (simp add: secret_used_def log_event_def)
qed

lemma check_used_secrets_used:
  "\<exists>s\<in>set ss. fst (secret_used s st) \<Longrightarrow>
     \<exists>s\<in>set ss. \<exists>checked. fst (secret_used s st) \<and>
        check_used_secrets ss st =
          (Inl (Exception (''secret already used: '' @ s)),
           st\<lparr>trace := trace st @ map SecretUsed checked\<rparr>)"
proof (induction ss arbitrary: st)
  case Nil
  then show ?case by simp
next
  case (Cons s ss)
  let ?st1 = "log_event (SecretUsed s) st"
  show ?case
  proof (cases "fst (secret_used s st)")
    case True
    then have "check_used_secrets (s # ss) st =
        (Inl (Exception (''secret already used: '' @ s)), st\<lparr>trace := trace st @ map SecretUsed [s]\<rparr>)"
      by (simp add: secret_used_def log_event_def)
    with True show ?thesis by (intro bexI [of _ s] exI [of _ "[s]"]) auto
  next
    case False
    with Cons.prems have "\<exists>x\<in>set ss. fst (secret_used x ?st1)"
      by (auto simp: secret_used_def log_event_def)
    from Cons.IH [OF this] obtain x checked where x: "x \<in> set ss" "fst (secret_used x ?st1)"
      "check_used_secrets ss ?st1 = (Inl (Exception (''secret already used: '' @ x)),
           ?st1\<lparr>trace := trace ?st1 @ map SecretUsed checked\<rparr>)"
      by blast
    have "check_used_secrets (s # ss) st = (Inl (Exception (''secret already used: '' @ x)),
           st\<lparr>trace := trace st @ map SecretUsed (s # checked)\<rparr>)"
      using False x(3) by (simp add: secret_used_def log_event_def)
    moreover have "fst (secret_used x st)"
      using x(2) by (simp add: secret_used_def log_event_def)
    ultimately show ?thesis using x(1) by (intro bexI [of _ x] exI [of _ "s # checked"]) auto
  qed
qed

lemma construct_outputs_Inr:
  "length amounts = length secrets \<Longrightarrow>
     \<exists>payloads rs. construct_outputs w amounts secrets = Inr (payloads, rs)
       \<and> map msg_amount payloads = amounts \<and> length rs = length amounts"
  by (auto simp: construct_outputs_def comp_def case_prod_unfold)


lemma secret_used_drawn [simp]:
  "fst (secret_used s (st\<lparr>drawn := d\<rparr>)) = fst (secret_used s st)"
  by (simp add: secret_used_def)

lemma construct_proofs_loop_amounts:
  "construct_proofs_loop w xs acc = Inr ps \<Longrightarrow>
     map amount ps = map amount acc @ map (\<lambda>x. sig_amount (fst x)) xs
     \<and> map secret ps = map secret acc @ map (\<lambda>x. fst (snd x)) xs"
proof (induction xs arbitrary: acc)
  case Nil
  then show ?case by simp
next
  case (Cons x xs)
  obtain promise s r where x: "x = (promise, s, r)" by (cases x)
  from Cons.prems x obtain k where
    "construct_proofs_loop w xs
       (acc @ [\<lparr>amount = sig_amount promise, C = step3_alice w (C' promise) r k,
                secret = s, reserved = False, send_id = None\<rparr>]) = Inr ps"
    by (auto split: if_splits option.splits)
  from Cons.IH [OF this] x show ?case by simp
qed

lemma construct_proofs_amounts:
  assumes "construct_proofs w promises secrets rs = Inr ps"
    and "length secrets = length promises" and "length rs = length promises"
  shows "map amount ps = map sig_amount promises" and "map secret ps = secrets"
proof -
  let ?xs = "zip promises (zip secrets rs)"
  from assms(1) have *: "map amount ps = map (\<lambda>x. sig_amount (fst x)) ?xs"
      "map secret ps = map (\<lambda>x. fst (snd x)) ?xs"
    using construct_proofs_loop_amounts [of w ?xs "[]" ps]
    by (simp_all add: construct_proofs_def)
  have "map (\<lambda>x. sig_amount (fst x)) ?xs = map sig_amount (map fst ?xs)"
    by (simp only: map_map comp_def)
  also have "\<dots> = map sig_amount promises"
    using assms(2,3) by simp
  finally show "map amount ps = map sig_amount promises" using * by simp
  have "map (\<lambda>x. fst (snd x)) ?xs = map fst (map snd ?xs)"
    by (simp only: map_map comp_def)
  also have "\<dots> = secrets"
    using assms(2,3) by simp
  finally show "map secret ps = secrets" using * by simp
qed

lemma LedgerAPI_split_used:
  assumes sec: "split_secrets w (amount_split (sum_list (map amount proofs_in) - amt))
                  (amount_split amt) scnd_secret st = (Inr secrets, st1)"
    and used: "\<exists>s\<in>set secrets. fst (secret_used s st)"
  shows "\<exists>s\<in>set secrets. \<exists>checked. fst (secret_used s st) \<and>
           LedgerAPI_split w proofs_in amt scnd_secret st =
             (Inl (Exception (''secret already used: '' @ s)),
              st1\<lparr>trace := trace st @ map SecretUsed checked\<rparr>)"
proof -
  let ?ko = "amount_split (sum_list (map amount proofs_in) - amt)"
  let ?so = "amount_split amt"
  from split_secrets_Inr [of w ?ko ?so scnd_secret st] sec
  have len: "length secrets = length ?ko + length ?so" by simp
  from split_secrets_frame [of w ?ko ?so scnd_secret st] sec
  have st1: "st1 = st\<lparr>drawn := drawn st1\<rparr>" by simp
  have u1: "fst (secret_used s st1) = fst (secret_used s st)" for s
    by (subst st1) simp
  have tr: "trace st1 = trace st"
    by (subst st1) simp
  from used have "\<exists>s\<in>set secrets. fst (secret_used s st1)"
    by (simp add: u1)
  from check_used_secrets_used [OF this] obtain s checked where
    s: "s \<in> set secrets" "fst (secret_used s st1)"
      "check_used_secrets secrets st1 =
         (Inl (Exception (''secret already used: '' @ s)), st1\<lparr>trace := trace st1 @ map SecretUsed checked\<rparr>)"
    by blast
  have "LedgerAPI_split w proofs_in amt scnd_secret st =
          (Inl (Exception (''secret already used: '' @ s)), st1\<lparr>trace := trace st @ map SecretUsed checked\<rparr>)"
    using sec len s(3) tr by (simp add: LedgerAPI_split_def)
  with s(1,2) u1 show ?thesis by blast
qed

lemma LedgerAPI_split_fresh:
  assumes sec: "split_secrets w (amount_split (sum_list (map amount proofs_in) - amt))
                  (amount_split amt) scnd_secret st = (Inr secrets, st1)"
    and fresh: "\<forall>s\<in>set secrets. \<not> fst (secret_used s st)"
  shows "\<exists>payloads rs.
           construct_outputs w (amount_split (sum_list (map amount proofs_in) - amt) @ amount_split amt) secrets
             = Inr (payloads, rs)
           \<and> map msg_amount payloads = amount_split (sum_list (map amount proofs_in) - amt) @ amount_split amt
           \<and> length rs = length secrets
           \<and> LedgerAPI_split w proofs_in amt scnd_secret st =
               (split_answer w secrets rs (post_split w proofs_in amt payloads),
                st1\<lparr>trace := trace st @ map SecretUsed secrets @ [Post (SplitRequest proofs_in amt payloads)]\<rparr>)"
proof -
  let ?ko = "amount_split (sum_list (map amount proofs_in) - amt)"
  let ?so = "amount_split amt"
  from split_secrets_Inr [of w ?ko ?so scnd_secret st] sec
  have len: "length secrets = length ?ko + length ?so" by simp
  from split_secrets_frame [of w ?ko ?so scnd_secret st] sec
  have st1: "st1 = st\<lparr>drawn := drawn st1\<rparr>" by simp
  have u1: "fst (secret_used s st1) = fst (secret_used s st)" for s
    by (subst st1) simp
  have tr: "trace st1 = trace st"
    by (subst st1) simp
  from fresh have "\<forall>s\<in>set secrets. \<not> fst (secret_used s st1)"
    by (simp add: u1)
  from check_used_secrets_fresh [OF this]
  have chk: "check_used_secrets secrets st1 = (Inr (), st1\<lparr>trace := trace st @ map SecretUsed secrets\<rparr>)"
    by (simp add: tr)
  from len have "length (?ko @ ?so) = length secrets" by simp
  from construct_outputs_Inr [OF this, of w] obtain payloads rs where
    out: "construct_outputs w (?ko @ ?so) secrets = Inr (payloads, rs)"
      "map msg_amount payloads = ?ko @ ?so" "length rs = length secrets"
    using len by auto
  have "LedgerAPI_split w proofs_in amt scnd_secret st =
          (split_answer w secrets rs (post_split w proofs_in amt payloads),
           st1\<lparr>trace := trace st @ map SecretUsed secrets @ [Post (SplitRequest proofs_in amt payloads)]\<rparr>)"
    using sec len chk out(1)
    by (simp add: LedgerAPI_split_def log_event_def)
  with out show ?thesis by blast
qed

lemma LedgerAPI_mint_used:
  assumes used: "\<exists>s\<in>set (fst (generate_secret_list w (length amounts) st)). fst (secret_used s st)"
  shows "\<exists>s\<in>set (fst (generate_secret_list w (length amounts) st)). \<exists>checked.
           fst (secret_used s st) \<and>
           LedgerAPI_mint w amounts payment_hash st =
             (Inl (Exception (''secret already used: '' @ s)),
              st\<lparr>drawn := drawn st + length amounts, trace := trace st @ map SecretUsed checked\<rparr>)"
proof -
  let ?secrets = "map (token_urlsafe w) [drawn st..<drawn st + length amounts]"
  let ?st1 = "st\<lparr>drawn := drawn st + length amounts\<rparr>"
  from used have "\<exists>s\<in>set ?secrets. fst (secret_used s ?st1)"
    by (simp add: generate_secret_list_eq)
  from check_used_secrets_used [OF this] obtain s checked where
    s: "s \<in> set ?secrets" "fst (secret_used s ?st1)"
      "check_used_secrets ?secrets ?st1 =
         (Inl (Exception (''secret already used: '' @ s)), ?st1\<lparr>trace := trace ?st1 @ map SecretUsed checked\<rparr>)"
    by blast
  have "LedgerAPI_mint w amounts payment_hash st =
          (Inl (Exception (''secret already used: '' @ s)),
           st\<lparr>drawn := drawn st + length amounts, trace := trace st @ map SecretUsed checked\<rparr>)"
    using s(3) by (simp add: LedgerAPI_mint_def generate_secret_list_eq)
  with s(1,2) show ?thesis
    by (simp add: generate_secret_list_eq) blast
qed

lemma LedgerAPI_mint_fresh:
  assumes fresh: "\<forall>s\<in>set (fst (generate_secret_list w (length amounts) st)). \<not> fst (secret_used s st)"
  shows "\<exists>payloads rs.
           construct_outputs w amounts (fst (generate_secret_list w (length amounts) st)) = Inr (payloads, rs)
           \<and> map msg_amount payloads = amounts
           \<and> LedgerAPI_mint w amounts payment_hash st =
               (mint_answer w (fst (generate_secret_list w (length amounts) st)) rs
                  (post_mint w payloads payment_hash),
                st\<lparr>drawn := drawn st + length amounts,
                   trace := trace st @ map SecretUsed (fst (generate_secret_list w (length amounts) st))
                              @ [Post (MintRequest payloads payment_hash)]\<rparr>)"
proof -
  let ?secrets = "map (token_urlsafe w) [drawn st..<drawn st + length amounts]"
  let ?st1 = "st\<lparr>drawn := drawn st + length amounts\<rparr>"
  from fresh have "\<forall>s\<in>set ?secrets. \<not> fst (secret_used s ?st1)"
    by (simp add: generate_secret_list_eq)
  from check_used_secrets_fresh [OF this]
  have chk: "check_used_secrets ?secrets ?st1 = (Inr (), ?st1\<lparr>trace := trace st @ map SecretUsed ?secrets\<rparr>)"
    by simp
  have "length amounts = length ?secrets" by simp
  from construct_outputs_Inr [OF this, of w] obtain payloads rs where
    out: "construct_outputs w amounts ?secrets = Inr (payloads, rs)"
      "map msg_amount payloads = amounts"
    by auto
  have "LedgerAPI_mint w amounts payment_hash st =
          (mint_answer w ?secrets rs (post_mint w payloads payment_hash),
           st\<lparr>drawn := drawn st + length amounts,
              trace := trace st @ map SecretUsed ?secrets @ [Post (MintRequest payloads payment_hash)]\<rparr>)"
    using chk out(1) by (simp add: LedgerAPI_mint_def generate_secret_list_eq log_event_def)
  with out show ?thesis
    by (simp add: generate_secret_list_eq)
qed

lemma new_events_append [simp]:
  "trace st' = trace st @ es \<Longrightarrow> new_events st st' = es"
  by (simp add: new_events_def)

lemma not_post_SecretUsed [simp]: "\<not> list_ex is_post (map SecretUsed ss)"
  by (induction ss) simp_all

lemma not_write_SecretUsed [simp]: "\<not> list_ex is_write (map SecretUsed ss)"
  by (induction ss) simp_all


lemma split_candidates_eq:
  "split_secrets w (amount_split (sum_list (map amount proofs_in) - amt)) (amount_split amt)
       scnd_secret st
     = (Inr (split_candidates w proofs_in amt scnd_secret st),
        snd (split_secrets w (amount_split (sum_list (map amount proofs_in) - amt))
               (amount_split amt) scnd_secret st))"
proof -
  let ?r = "split_secrets w (amount_split (sum_list (map amount proofs_in) - amt))
              (amount_split amt) scnd_secret st"
  from split_secrets_Inr obtain secrets where "fst ?r = Inr secrets"
    by blast
  then show ?thesis
    by (simp add: split_candidates_def prod_eq_iff)
qed

section \<open>The example, evaluated\<close>

lemma str_nat_digit: "n < 10 \<Longrightarrow> str_nat n = [''0123456789'' ! n]"
  by (simp add: str_nat.simps)

lemma example_splits:
  "amount_split 8 = [8]" "amount_split 5 = [1, 4]" "amount_split 3 = [1, 2]"
  "amount_split (- 1) = [1]" "amount_split 14 = [2, 4, 8]"
  unfolding amount_split_def by code_simp+

lemma example_upt: "[0..<2] = [0, 1]" "[0..<3] = [0, 1, 2]" "[0..<4] = [0, 1, 2, 3]"
  by (simp_all add: upt_rec)

lemma example_total: "sum_list (map amount example_pile) = 13"
  by (simp add: example_pile_def)

lemmas example_defs =
  example_world_def example_wallet_def tainted_wallet_def mock_split_def mock_sign_def

lemma example_mint_candidates:
  "mint_candidates example_world [1, 2] example_wallet = [''r0'', ''r1'']"
  "mint_candidates example_world [1, 2] tainted_wallet = [''r0'', ''r1'']"
  by (simp_all add: mint_candidates_def generate_secret_list_eq example_defs example_upt str_nat_digit)

lemma example_split_candidates:
  "split_candidates example_world example_pile 5 None example_wallet = [''r0'', ''r1'', ''r2'']"
  "split_candidates example_world example_pile 5 None tainted_wallet = [''r0'', ''r1'', ''r2'']"
  "split_candidates example_world example_pile 14 None example_wallet = [''r0'', ''r1'', ''r2'', ''r3'']"
  by (simp_all add: split_candidates_def split_secrets_def generate_secret_list_eq example_total
        example_splits example_defs example_upt str_nat_digit)

lemma example_secret_used:
  "\<not> fst (secret_used ''r0'' example_wallet)" "\<not> fst (secret_used ''r1'' example_wallet)"
  "\<not> fst (secret_used ''r2'' example_wallet)" "\<not> fst (secret_used ''r3'' example_wallet)"
  "fst (secret_used ''r0'' tainted_wallet)" "\<not> fst (secret_used ''r1'' tainted_wallet)"
  "\<not> fst (secret_used ''r2'' tainted_wallet)"
  by (simp_all add: secret_used_def example_defs example_pile_def)

section \<open>Secrets are checked before the request\<close>

text \<open>
  C4. In every mint and every split, the candidate output secrets are checked against
  the store before the HTTP request. If a candidate secret is already used, the call
  ends with the error \<^verbatim>\<open>secret already used\<close> for a used candidate and has sent no
  request to the mint. If none is used, what the call does is: the check of every
  candidate, in order, and after the last of them the one request.
\<close>

theorem used_secret_aborts_before_request:
  "((\<exists>s\<in>set (mint_candidates w amounts st). fst (secret_used s st)) \<longrightarrow>
      (\<exists>s\<in>set (mint_candidates w amounts st). fst (secret_used s st) \<and>
         fst (LedgerAPI_mint w amounts payment_hash st)
           = Inl (Exception (''secret already used: '' @ s)))
      \<and> \<not> list_ex is_post (new_events st (snd (LedgerAPI_mint w amounts payment_hash st))))
   \<and> ((\<forall>s\<in>set (mint_candidates w amounts st). \<not> fst (secret_used s st)) \<longrightarrow>
      (\<exists>payloads. new_events st (snd (LedgerAPI_mint w amounts payment_hash st))
         = map SecretUsed (mint_candidates w amounts st) @ [Post (MintRequest payloads payment_hash)]))
   \<and> ((\<exists>s\<in>set (split_candidates w proofs_in amt scnd_secret st). fst (secret_used s st)) \<longrightarrow>
      (\<exists>s\<in>set (split_candidates w proofs_in amt scnd_secret st). fst (secret_used s st) \<and>
         fst (LedgerAPI_split w proofs_in amt scnd_secret st)
           = Inl (Exception (''secret already used: '' @ s)))
      \<and> \<not> list_ex is_post (new_events st (snd (LedgerAPI_split w proofs_in amt scnd_secret st))))
   \<and> ((\<forall>s\<in>set (split_candidates w proofs_in amt scnd_secret st). \<not> fst (secret_used s st)) \<longrightarrow>
      (\<exists>payloads. new_events st (snd (LedgerAPI_split w proofs_in amt scnd_secret st))
         = map SecretUsed (split_candidates w proofs_in amt scnd_secret st)
             @ [Post (SplitRequest proofs_in amt payloads)]))"
proof (intro conjI impI)
  assume "\<exists>s\<in>set (mint_candidates w amounts st). fst (secret_used s st)"
  then have "\<exists>s\<in>set (fst (generate_secret_list w (length amounts) st)). fst (secret_used s st)"
    by (simp add: mint_candidates_def)
  from LedgerAPI_mint_used [OF this, of payment_hash]
  obtain s checked where s: "s \<in> set (mint_candidates w amounts st)" "fst (secret_used s st)"
    "LedgerAPI_mint w amounts payment_hash st =
       (Inl (Exception (''secret already used: '' @ s)),
        st\<lparr>drawn := drawn st + length amounts, trace := trace st @ map SecretUsed checked\<rparr>)"
    by (auto simp: mint_candidates_def)
  from s show "\<exists>s\<in>set (mint_candidates w amounts st). fst (secret_used s st) \<and>
      fst (LedgerAPI_mint w amounts payment_hash st) = Inl (Exception (''secret already used: '' @ s))"
    by auto
  from s(3) show "\<not> list_ex is_post (new_events st (snd (LedgerAPI_mint w amounts payment_hash st)))"
    by simp
next
  assume "\<forall>s\<in>set (mint_candidates w amounts st). \<not> fst (secret_used s st)"
  then have "\<forall>s\<in>set (fst (generate_secret_list w (length amounts) st)). \<not> fst (secret_used s st)"
    by (simp add: mint_candidates_def)
  from LedgerAPI_mint_fresh [OF this, of payment_hash]
  show "\<exists>payloads. new_events st (snd (LedgerAPI_mint w amounts payment_hash st))
           = map SecretUsed (mint_candidates w amounts st) @ [Post (MintRequest payloads payment_hash)]"
    by (auto simp: mint_candidates_def)
next
  assume "\<exists>s\<in>set (split_candidates w proofs_in amt scnd_secret st). fst (secret_used s st)"
  from LedgerAPI_split_used [OF split_candidates_eq this]
  obtain s checked where s: "s \<in> set (split_candidates w proofs_in amt scnd_secret st)"
    "fst (secret_used s st)"
    "fst (LedgerAPI_split w proofs_in amt scnd_secret st) = Inl (Exception (''secret already used: '' @ s))"
    "trace (snd (LedgerAPI_split w proofs_in amt scnd_secret st)) = trace st @ map SecretUsed checked"
    by auto
  from s show "\<exists>s\<in>set (split_candidates w proofs_in amt scnd_secret st). fst (secret_used s st) \<and>
      fst (LedgerAPI_split w proofs_in amt scnd_secret st) = Inl (Exception (''secret already used: '' @ s))"
    by auto
  from s(4) show "\<not> list_ex is_post (new_events st (snd (LedgerAPI_split w proofs_in amt scnd_secret st)))"
    by simp
next
  assume "\<forall>s\<in>set (split_candidates w proofs_in amt scnd_secret st). \<not> fst (secret_used s st)"
  from LedgerAPI_split_fresh [OF split_candidates_eq this]
  show "\<exists>payloads. new_events st (snd (LedgerAPI_split w proofs_in amt scnd_secret st))
           = map SecretUsed (split_candidates w proofs_in amt scnd_secret st)
               @ [Post (SplitRequest proofs_in amt payloads)]"
    by auto
qed

theorem used_secret_aborts_before_request_witness:
  "fst (secret_used ''r0'' tainted_wallet)
   \<and> fst (LedgerAPI_mint example_world [1, 2] None tainted_wallet)
       = Inl (Exception ''secret already used: r0'')
   \<and> \<not> list_ex is_post
         (new_events tainted_wallet (snd (LedgerAPI_mint example_world [1, 2] None tainted_wallet)))
   \<and> fst (LedgerAPI_split example_world example_pile 5 None tainted_wallet)
       = Inl (Exception ''secret already used: r0'')
   \<and> \<not> list_ex is_post
         (new_events tainted_wallet
            (snd (LedgerAPI_split example_world example_pile 5 None tainted_wallet)))
   \<and> (\<exists>payloads.
         new_events example_wallet (snd (LedgerAPI_mint example_world [1, 2] None example_wallet))
           = [SecretUsed ''r0'', SecretUsed ''r1'', Post (MintRequest payloads None)])
   \<and> (\<exists>payloads.
         new_events example_wallet
            (snd (LedgerAPI_split example_world example_pile 5 None example_wallet))
           = [SecretUsed ''r0'', SecretUsed ''r1'', SecretUsed ''r2'',
              Post (SplitRequest example_pile 5 payloads)])"
  using used_secret_aborts_before_request
          [of example_world "[1, 2]" tainted_wallet None example_pile 5 None]
        used_secret_aborts_before_request
          [of example_world "[1, 2]" example_wallet None example_pile 5 None]
  by (simp add: example_mint_candidates example_split_candidates example_secret_used)

section \<open>A split of no proofs\<close>

text \<open>
  C10. \<^verbatim>\<open>Wallet.split\<close> called with an empty list of proofs fails, whatever the amount
  and the secret: the assertion on the number of proofs raises, and the wallet is left
  as it was, so nothing was sent to the mint and nothing written to the store.
\<close>

theorem split_of_no_proofs_fails:
  "Wallet_split w [] amt scnd_secret st = (Inl (AssertionError ''no proofs provided.''), st)"
  by (simp add: Wallet_split_def)

section \<open>A successful split\<close>

lemma store_proofs_trace:
  "trace (store_proofs ps st) = trace st @ map StoreProof ps"
  "proofs (store_proofs ps st) = proofs st"
  unfolding store_proofs_def
  by (induction ps arbitrary: st) (simp_all add: store_proof_def log_event_def)

lemma invalidate_all_trace:
  "trace (fold invalidate_proof ps st) = trace st @ map InvalidateProof ps"
  "proofs (fold invalidate_proof ps st) = proofs st"
  by (induction ps arbitrary: st) (simp_all add: invalidate_proof_def log_event_def)

lemma LedgerAPI_split_Inr:
  assumes "LedgerAPI_split w proofs_in amt scnd_secret st = (Inr (keep, send), st1)"
  shows "\<exists>payloads rs.
           map msg_amount payloads
             = amount_split (sum_list (map amount proofs_in) - amt) @ amount_split amt
           \<and> length rs = length (split_candidates w proofs_in amt scnd_secret st)
           \<and> length (split_candidates w proofs_in amt scnd_secret st)
               = length (amount_split (sum_list (map amount proofs_in) - amt)) + length (amount_split amt)
           \<and> split_answer w (split_candidates w proofs_in amt scnd_secret st) rs
               (post_split w proofs_in amt payloads) = Inr (keep, send)
           \<and> trace st1 = trace st @ map SecretUsed (split_candidates w proofs_in amt scnd_secret st)
                            @ [Post (SplitRequest proofs_in amt payloads)]
           \<and> proofs st1 = proofs st"
proof -
  let ?secrets = "split_candidates w proofs_in amt scnd_secret st"
  let ?ko = "amount_split (sum_list (map amount proofs_in) - amt)"
  let ?so = "amount_split amt"
  let ?s1 = "snd (split_secrets w ?ko ?so scnd_secret st)"
  have fresh: "\<forall>s\<in>set ?secrets. \<not> fst (secret_used s st)"
  proof (rule ccontr)
    assume "\<not> ?thesis"
    then have "\<exists>s\<in>set ?secrets. fst (secret_used s st)" by blast
    from LedgerAPI_split_used [OF split_candidates_eq this] assms show False
      by auto
  qed
  from split_secrets_Inr [of w ?ko ?so scnd_secret st] obtain secrets where
    "fst (split_secrets w ?ko ?so scnd_secret st) = Inr secrets"
    "length secrets = length ?ko + length ?so"
    by blast
  then have len: "length ?secrets = length ?ko + length ?so"
    by (simp add: split_candidates_def)
  have pr: "proofs ?s1 = proofs st"
    by (subst split_secrets_frame) simp
  from LedgerAPI_split_fresh [OF split_candidates_eq fresh] obtain payloads rs where
    f: "map msg_amount payloads = ?ko @ ?so" "length rs = length ?secrets"
       "LedgerAPI_split w proofs_in amt scnd_secret st =
          (split_answer w ?secrets rs (post_split w proofs_in amt payloads),
           ?s1\<lparr>trace := trace st @ map SecretUsed ?secrets @ [Post (SplitRequest proofs_in amt payloads)]\<rparr>)"
    by blast
  from f(3) assms have
    "split_answer w ?secrets rs (post_split w proofs_in amt payloads) = Inr (keep, send)"
    "st1 = ?s1\<lparr>trace := trace st @ map SecretUsed ?secrets @ [Post (SplitRequest proofs_in amt payloads)]\<rparr>"
    by simp_all
  with f(1,2) len pr show ?thesis
    by (intro exI [of _ payloads] exI [of _ rs]) simp
qed

lemma Wallet_split_Inr:
  assumes "Wallet_split w proofs_in amt scnd_secret st = (Inr (keep, send), st')"
  shows "proofs_in \<noteq> []"
    and "\<exists>st1. LedgerAPI_split w proofs_in amt scnd_secret st = (Inr (keep, send), st1)
           \<and> trace st' = trace st1
                @ [SetProofs (filter (\<lambda>p. secret p \<notin> set (map secret proofs_in)) (proofs st1)),
                   SetProofs (filter (\<lambda>p. secret p \<notin> set (map secret proofs_in)) (proofs st1)
                                @ (keep @ send))]
                @ map StoreProof (keep @ send) @ map InvalidateProof proofs_in
           \<and> proofs st' = filter (\<lambda>p. secret p \<notin> set (map secret proofs_in)) (proofs st1)
                             @ (keep @ send)"
proof -
  from assms show ne: "proofs_in \<noteq> []"
    by (auto simp: Wallet_split_def)
  obtain r st1 where l: "LedgerAPI_split w proofs_in amt scnd_secret st = (r, st1)"
    by (cases "LedgerAPI_split w proofs_in amt scnd_secret st")
  from assms ne l have r: "r = Inr (keep, send)"
    by (auto simp: Wallet_split_def Let_def split: sum.splits if_splits prod.splits)
  from assms ne l r have "st' = fold invalidate_proof proofs_in
      (store_proofs (keep @ send)
        (set_proofs (proofs (set_proofs (filter (\<lambda>p. secret p \<notin> set (map secret proofs_in)) (proofs st1)) st1) @ (keep @ send))
          (set_proofs (filter (\<lambda>p. secret p \<notin> set (map secret proofs_in)) (proofs st1)) st1)))"
    by (auto simp: Wallet_split_def Let_def split: if_splits)
  then have "trace st' = trace st1
                @ [SetProofs (filter (\<lambda>p. secret p \<notin> set (map secret proofs_in)) (proofs st1)),
                   SetProofs (filter (\<lambda>p. secret p \<notin> set (map secret proofs_in)) (proofs st1)
                                @ (keep @ send))]
                @ map StoreProof (keep @ send) @ map InvalidateProof proofs_in"
     and "proofs st' = filter (\<lambda>p. secret p \<notin> set (map secret proofs_in)) (proofs st1) @ (keep @ send)"
    by (simp_all add: invalidate_all_trace store_proofs_trace set_proofs_def log_event_def)
  with l r show "\<exists>st1. LedgerAPI_split w proofs_in amt scnd_secret st = (Inr (keep, send), st1)
           \<and> trace st' = trace st1
                @ [SetProofs (filter (\<lambda>p. secret p \<notin> set (map secret proofs_in)) (proofs st1)),
                   SetProofs (filter (\<lambda>p. secret p \<notin> set (map secret proofs_in)) (proofs st1)
                                @ (keep @ send))]
                @ map StoreProof (keep @ send) @ map InvalidateProof proofs_in
           \<and> proofs st' = filter (\<lambda>p. secret p \<notin> set (map secret proofs_in)) (proofs st1)
                             @ (keep @ send)"
    by blast
qed

lemma not_write_requests [simp]:
  "\<not> list_ex is_write (map SecretUsed ss @ [Post r])"
  by (induction ss) simp_all

lemma length_bit_powers: "length (bit_powers k n) = popcount_nat n"
proof (induction k n rule: bit_powers.induct)
  case (1 k n)
  show ?case
  proof (cases "n = 0")
    case True
    then show ?thesis by (simp add: bit_powers.simps popcount_nat.simps)
  next
    case False
    with 1 show ?thesis
      by (subst bit_powers.simps, subst popcount_nat.simps) simp
  qed
qed

text \<open>The count \<open>popcount\<close> is the number of set bits.\<close>

lemma finite_set_bits: "finite {i. bit n i}" for n :: nat
proof (induction n rule: popcount_nat.induct)
  case (1 n)
  show ?case
  proof (cases "n = 0")
    case True
    then show ?thesis by simp
  next
    case False
    with 1 have "finite (Suc ` {i. bit (n div 2) i})" by simp
    then have "finite ((if odd n then {0} else {}) \<union> Suc ` {i. bit (n div 2) i})" by simp
    then show ?thesis by (simp only: bits_step [symmetric])
  qed
qed

lemma popcount_nat_card: "popcount_nat n = card {i. bit n i}"
proof (induction n rule: popcount_nat.induct)
  case (1 n)
  show ?case
  proof (cases "n = 0")
    case True
    then show ?thesis by (simp add: popcount_nat.simps)
  next
    case False
    have fin: "finite (Suc ` {i. bit (n div 2) i})"
      by (simp add: finite_set_bits)
    have disj: "(if odd n then {0} else {}) \<inter> Suc ` {i. bit (n div 2) i} = {}"
      by auto
    have "card {i. bit n i} = card ((if odd n then {0::nat} else {}) \<union> Suc ` {i. bit (n div 2) i})"
      by (simp only: bits_step [symmetric])
    also have "\<dots> = card (if odd n then {0::nat} else {}) + card (Suc ` {i. bit (n div 2) i})"
      using fin disj by (intro card_Un_disjoint) auto
    also have "\<dots> = (if odd n then 1 else 0) + card {i. bit (n div 2) i}"
      by (simp add: card_image)
    finally show ?thesis
      using False 1 by (subst popcount_nat.simps) simp
  qed
qed


lemma amount_split_nonneg:
  assumes "0 \<le> n"
  shows "sum_list (amount_split n) = n"
    and "length (amount_split n) = popcount n"
    and "x \<in> set (amount_split n) \<Longrightarrow> \<exists>k. x = 2 ^ k"
  using assms
  by (auto simp: amount_split_def get_output_split_nonneg sum_bit_powers length_bit_powers
        popcount_def set_bit_powers)

lemma split_answer_Body:
  assumes "split_answer w secrets rs resp = Inr (keep, send)"
  shows "\<exists>promises_fst promises_snd. resp = Body (promises_fst, promises_snd)
           \<and> construct_proofs w promises_fst (take (length promises_fst) secrets)
                 (take (length promises_fst) rs) = Inr keep
           \<and> construct_proofs w promises_snd (drop (length promises_fst) secrets)
                 (drop (length promises_fst) rs) = Inr send"
  using assms
  by (auto simp: split_answer_def split: response.splits sum.splits prod.splits)

lemma example_split:
  "fst (Wallet_split example_world example_pile 5 None example_wallet) =
     Inr (example_keep, example_send)"
  by (simp add: Wallet_split_def LedgerAPI_split_def split_secrets_def generate_secret_list_eq
        example_total example_splits example_upt str_nat_digit secret_used_def log_event_def construct_outputs_def
        split_answer_def construct_proofs_def str_int_def
        example_defs example_pile_def example_keep_def example_send_def Let_def)

lemma example_mint_positional:
  "post_split example_world example_pile 5 outs = Body (promises_fst, promises_snd) \<Longrightarrow>
     map sig_amount promises_fst
       = take (length (amount_split (sum_list (map amount example_pile) - 5))) (map msg_amount outs)
     \<and> map sig_amount promises_snd
       = drop (length (amount_split (sum_list (map amount example_pile) - 5))) (map msg_amount outs)"
  by (auto simp: example_defs example_total example_splits comp_def take_map drop_map)

lemma example_popcount: "popcount 8 = 1" "popcount 5 = 2"
  unfolding popcount_def by code_simp+


lemma example_split_returns:
  "Wallet_split example_world example_pile 5 None example_wallet =
     (Inr (example_keep, example_send),
      snd (Wallet_split example_world example_pile 5 None example_wallet))"
  using example_split by (simp add: prod_eq_iff)

text \<open>
  C2. Let the pile be non-empty with total \<open>T\<close>, let \<open>0 \<le> amt \<le> T\<close>, and let the mint
  answer \<^verbatim>\<open>/split\<close> positionally: the signatures of \<^verbatim>\<open>fst\<close> carry the amounts of the
  first outputs, as many as the amount to keep has denominations, those of \<^verbatim>\<open>snd\<close>
  the amounts of the remaining outputs. Then the piles \<open>(keep, send)\<close> that
  \<^verbatim>\<open>Wallet.split\<close> returns have exactly the amounts \<open>amount_split (T - amt)\<close> and
  \<open>amount_split amt\<close>, in the order of the outputs submitted (the outputs to keep
  first); so they sum to \<open>T - amt\<close> and \<open>amt\<close>, they have \<open>popcount (T - amt)\<close> and
  \<open>popcount amt\<close> proofs, and every amount is a power of two.
\<close>

theorem split_conservation:
  assumes nonempty: "proofs_in \<noteq> []"
    and range: "0 \<le> amt" "amt \<le> sum_list (map amount proofs_in)"
    and mint: "\<And>outs promises_fst promises_snd.
        post_split w proofs_in amt outs = Body (promises_fst, promises_snd) \<Longrightarrow>
          map sig_amount promises_fst
            = take (length (amount_split (sum_list (map amount proofs_in) - amt))) (map msg_amount outs)
          \<and> map sig_amount promises_snd
            = drop (length (amount_split (sum_list (map amount proofs_in) - amt))) (map msg_amount outs)"
    and returns: "Wallet_split w proofs_in amt scnd_secret st = (Inr (keep, send), st')"
  shows "map amount keep = amount_split (sum_list (map amount proofs_in) - amt)
       \<and> map amount send = amount_split amt
       \<and> sum_list (map amount keep) = sum_list (map amount proofs_in) - amt
       \<and> sum_list (map amount send) = amt
       \<and> length keep = popcount (sum_list (map amount proofs_in) - amt)
       \<and> length send = popcount amt
       \<and> (\<forall>p\<in>set (keep @ send). \<exists>k. amount p = 2 ^ k)
       \<and> (\<exists>payloads. Post (SplitRequest proofs_in amt payloads) \<in> set (new_events st st')
             \<and> map msg_amount payloads = map amount keep @ map amount send)"
proof -
  let ?ko = "amount_split (sum_list (map amount proofs_in) - amt)"
  let ?so = "amount_split amt"
  let ?secrets = "split_candidates w proofs_in amt scnd_secret st"
  from Wallet_split_Inr(2) [OF returns] obtain st1 where
    l: "LedgerAPI_split w proofs_in amt scnd_secret st = (Inr (keep, send), st1)"
    and t: "trace st' = trace st1
                @ [SetProofs (filter (\<lambda>p. secret p \<notin> set (map secret proofs_in)) (proofs st1)),
                   SetProofs (filter (\<lambda>p. secret p \<notin> set (map secret proofs_in)) (proofs st1)
                                @ (keep @ send))]
                @ map StoreProof (keep @ send) @ map InvalidateProof proofs_in"
    by blast
  from LedgerAPI_split_Inr [OF l] obtain payloads rs where
    p: "map msg_amount payloads = ?ko @ ?so" "length rs = length ?secrets"
       "length ?secrets = length ?ko + length ?so"
       "split_answer w ?secrets rs (post_split w proofs_in amt payloads) = Inr (keep, send)"
       "trace st1 = trace st @ map SecretUsed ?secrets @ [Post (SplitRequest proofs_in amt payloads)]"
    by blast
  from split_answer_Body [OF p(4)] obtain promises_fst promises_snd where
    b: "post_split w proofs_in amt payloads = Body (promises_fst, promises_snd)"
       "construct_proofs w promises_fst (take (length promises_fst) ?secrets)
          (take (length promises_fst) rs) = Inr keep"
       "construct_proofs w promises_snd (drop (length promises_fst) ?secrets)
          (drop (length promises_fst) rs) = Inr send"
    by blast
  from mint [OF b(1)] p(1) have
    m: "map sig_amount promises_fst = ?ko" "map sig_amount promises_snd = ?so"
    by simp_all
  from m have lens: "length promises_fst = length ?ko" "length promises_snd = length ?so"
    by (metis length_map)+
  have keep: "map amount keep = ?ko"
    using construct_proofs_amounts(1) [OF b(2)] lens p(2,3) m(1) by simp
  have send: "map amount send = ?so"
    using construct_proofs_amounts(1) [OF b(3)] lens p(2,3) m(2) by simp
  have k0: "0 \<le> sum_list (map amount proofs_in) - amt"
    using range by simp
  have "sum_list (map amount keep) = sum_list (map amount proofs_in) - amt"
    using keep amount_split_nonneg(1) [OF k0] by simp
  moreover have "sum_list (map amount send) = amt"
    using send amount_split_nonneg(1) [OF range(1)] by simp
  moreover have "length keep = popcount (sum_list (map amount proofs_in) - amt)"
    using keep amount_split_nonneg(2) [OF k0] by (metis length_map)
  moreover have "length send = popcount amt"
    using send amount_split_nonneg(2) [OF range(1)] by (metis length_map)
  moreover have "\<forall>p\<in>set (keep @ send). \<exists>k. amount p = 2 ^ k"
  proof
    fix q assume "q \<in> set (keep @ send)"
    then have "amount q \<in> set (map amount keep) \<union> set (map amount send)"
      by auto
    with keep send have "amount q \<in> set ?ko \<or> amount q \<in> set ?so"
      by simp
    then show "\<exists>k. amount q = 2 ^ k"
      using amount_split_nonneg(3) [OF k0] amount_split_nonneg(3) [OF range(1)] by blast
  qed
  moreover have "Post (SplitRequest proofs_in amt payloads) \<in> set (new_events st st')"
    using t p(5) by (simp add: new_events_def)
  moreover have "map msg_amount payloads = map amount keep @ map amount send"
    using p(1) keep send by simp
  ultimately show ?thesis
    using keep send by blast
qed


theorem split_conservation_witness:
  "example_pile \<noteq> [] \<and> (0::int) \<le> 5 \<and> 5 \<le> sum_list (map amount example_pile)
   \<and> fst (Wallet_split example_world example_pile 5 None example_wallet)
       = Inr (example_keep, example_send)
   \<and> map amount example_keep = [8] \<and> map amount example_send = [1, 4]
   \<and> sum_list (map amount example_keep) = 13 - 5 \<and> sum_list (map amount example_send) = 5
   \<and> length example_keep = popcount 8 \<and> length example_send = popcount 5"
proof -
  have ne: "example_pile \<noteq> []"
    by (simp add: example_pile_def)
  have r: "(0::int) \<le> 5" "5 \<le> sum_list (map amount example_pile)"
    by (simp_all add: example_total)
  from split_conservation [OF ne r example_mint_positional example_split_returns]
  show ?thesis
    using ne r example_split by (simp add: example_total example_splits)
qed

section \<open>The order of the writes of a split\<close>

text \<open>
  C9. What a successful \<^verbatim>\<open>Wallet.split\<close> does after its requests is, in this
  order: it removes the input proofs from \<^verbatim>\<open>self.proofs\<close> by their secrets, appends
  the new proofs to \<^verbatim>\<open>self.proofs\<close>, stores every new proof, and then invalidates
  every input proof in the store. No input proof is invalidated before the last new
  proof is stored, and nothing is written before the request.
\<close>

theorem split_stores_before_invalidating:
  assumes "Wallet_split w proofs_in amt scnd_secret st = (Inr (frst_proofs, scnd_proofs), st')"
  shows "\<exists>requests.
           new_events st st' =
             requests
             @ [SetProofs (filter (\<lambda>p. secret p \<notin> set (map secret proofs_in)) (proofs st)),
                SetProofs (filter (\<lambda>p. secret p \<notin> set (map secret proofs_in)) (proofs st)
                             @ frst_proofs @ scnd_proofs)]
             @ map StoreProof (frst_proofs @ scnd_proofs)
             @ map InvalidateProof proofs_in
           \<and> \<not> list_ex is_write requests"
proof -
  from Wallet_split_Inr(2) [OF assms] obtain st1 where
    l: "LedgerAPI_split w proofs_in amt scnd_secret st = (Inr (frst_proofs, scnd_proofs), st1)"
    and t: "trace st' = trace st1
                @ [SetProofs (filter (\<lambda>p. secret p \<notin> set (map secret proofs_in)) (proofs st1)),
                   SetProofs (filter (\<lambda>p. secret p \<notin> set (map secret proofs_in)) (proofs st1)
                                @ (frst_proofs @ scnd_proofs))]
                @ map StoreProof (frst_proofs @ scnd_proofs) @ map InvalidateProof proofs_in"
    by blast
  from LedgerAPI_split_Inr [OF l] obtain payloads where
    p: "trace st1 = trace st @ map SecretUsed (split_candidates w proofs_in amt scnd_secret st)
                            @ [Post (SplitRequest proofs_in amt payloads)]"
      "proofs st1 = proofs st"
    by blast
  let ?requests = "map SecretUsed (split_candidates w proofs_in amt scnd_secret st)
                            @ [Post (SplitRequest proofs_in amt payloads)]"
  have "new_events st st' =
             ?requests
             @ [SetProofs (filter (\<lambda>p. secret p \<notin> set (map secret proofs_in)) (proofs st)),
                SetProofs (filter (\<lambda>p. secret p \<notin> set (map secret proofs_in)) (proofs st)
                             @ frst_proofs @ scnd_proofs)]
             @ map StoreProof (frst_proofs @ scnd_proofs)
             @ map InvalidateProof proofs_in"
    using t p by (simp add: new_events_def)
  moreover have "\<not> list_ex is_write ?requests"
    by (rule not_write_requests)
  ultimately show ?thesis by blast
qed


theorem split_stores_before_invalidating_witness:
  "fst (Wallet_split example_world example_pile 5 None example_wallet)
     = Inr (example_keep, example_send)
   \<and> (\<exists>requests.
         new_events example_wallet
            (snd (Wallet_split example_world example_pile 5 None example_wallet))
           = requests
             @ [SetProofs [], SetProofs (example_keep @ example_send)]
             @ map StoreProof (example_keep @ example_send)
             @ map InvalidateProof example_pile
         \<and> \<not> list_ex is_write requests)"
  using split_stores_before_invalidating [OF example_split_returns] example_split
  by (simp add: example_wallet_def example_pile_def)

section \<open>A split amount outside the pile\<close>

lemma Wallet_split_extends_trace:
  assumes "proofs_in \<noteq> []"
  shows "\<exists>es. trace (snd (Wallet_split w proofs_in amt scnd_secret st))
              = trace (snd (LedgerAPI_split w proofs_in amt scnd_secret st)) @ es"
proof (cases "LedgerAPI_split w proofs_in amt scnd_secret st")
  case (Pair r st1)
  show ?thesis
  proof (cases r)
    case (Inl e)
    with Pair assms show ?thesis
      by (simp add: Wallet_split_def)
  next
    case (Inr ks)
    obtain keep send where ks: "ks = (keep, send)" by (cases ks)
    show ?thesis
      using Pair Inr ks assms
      by (simp add: Wallet_split_def Let_def invalidate_all_trace store_proofs_trace
            set_proofs_def log_event_def)
  qed
qed

lemma example_out_of_range:
  "Wallet_split example_world example_pile 14 None example_wallet =
     (Inl (Exception ''Mint Error: split amount is higher than the total sum''),
      example_wallet\<lparr>drawn := 4,
        trace := [SecretUsed ''r0'', SecretUsed ''r1'', SecretUsed ''r2'', SecretUsed ''r3'',
                  Post (SplitRequest example_pile 14
                          [BlindedMessage 1 ''B-r0'', BlindedMessage 2 ''B-r1'',
                           BlindedMessage 4 ''B-r2'', BlindedMessage 8 ''B-r3''])]\<rparr>)"
  by (simp add: Wallet_split_def LedgerAPI_split_def split_secrets_def generate_secret_list_eq
        example_total example_splits example_upt str_nat_digit secret_used_def log_event_def
        construct_outputs_def split_answer_def example_defs Let_def)
     (simp add: example_pile_def)

text \<open>
  C3, as the code has it. \<^verbatim>\<open>split\<close> does not compare the amount with zero or with
  the total of the pile. For an amount outside the range (negative, or greater than the
  total), unless a candidate secret is already used, the call goes on to the network:
  it posts the split request, with outputs for \<open>amount_split (total - amt)\<close> followed
  by \<open>amount_split amt\<close>, and its result is what follows from the answer of the mint.
\<close>

theorem split_out_of_range_is_posted:
  assumes "amt < 0 \<or> sum_list (map amount proofs_in) < amt"
    and "\<forall>s\<in>set (split_candidates w proofs_in amt scnd_secret st). \<not> fst (secret_used s st)"
  shows "\<exists>payloads rs.
           map msg_amount payloads
             = amount_split (sum_list (map amount proofs_in) - amt) @ amount_split amt
           \<and> new_events st (snd (LedgerAPI_split w proofs_in amt scnd_secret st))
               = map SecretUsed (split_candidates w proofs_in amt scnd_secret st)
                   @ [Post (SplitRequest proofs_in amt payloads)]
           \<and> fst (LedgerAPI_split w proofs_in amt scnd_secret st)
               = split_answer w (split_candidates w proofs_in amt scnd_secret st) rs
                   (post_split w proofs_in amt payloads)
           \<and> (proofs_in \<noteq> [] \<longrightarrow>
                Post (SplitRequest proofs_in amt payloads)
                  \<in> set (new_events st (snd (Wallet_split w proofs_in amt scnd_secret st))))"
proof -
  let ?secrets = "split_candidates w proofs_in amt scnd_secret st"
  from LedgerAPI_split_fresh [OF split_candidates_eq assms(2)] obtain payloads rs where
    f: "map msg_amount payloads
          = amount_split (sum_list (map amount proofs_in) - amt) @ amount_split amt"
       "LedgerAPI_split w proofs_in amt scnd_secret st =
          (split_answer w ?secrets rs (post_split w proofs_in amt payloads),
           (snd (split_secrets w (amount_split (sum_list (map amount proofs_in) - amt))
                   (amount_split amt) scnd_secret st))
             \<lparr>trace := trace st @ map SecretUsed ?secrets @ [Post (SplitRequest proofs_in amt payloads)]\<rparr>)"
    by blast
  from f(2) have t: "trace (snd (LedgerAPI_split w proofs_in amt scnd_secret st))
      = trace st @ map SecretUsed ?secrets @ [Post (SplitRequest proofs_in amt payloads)]"
    by simp
  have "Post (SplitRequest proofs_in amt payloads)
          \<in> set (new_events st (snd (Wallet_split w proofs_in amt scnd_secret st)))"
    if "proofs_in \<noteq> []"
  proof -
    from Wallet_split_extends_trace [OF that, of w amt scnd_secret st] t obtain es where
      "trace (snd (Wallet_split w proofs_in amt scnd_secret st))
         = trace st @ map SecretUsed ?secrets @ [Post (SplitRequest proofs_in amt payloads)] @ es"
      by auto
    then show ?thesis by (simp add: new_events_def)
  qed
  with f t show ?thesis
    by (intro exI [of _ payloads] exI [of _ rs]) simp
qed

theorem split_out_of_range_is_posted_witness:
  "((14::int) < 0 \<or> sum_list (map amount example_pile) < 14)
   \<and> \<not> fst (secret_used ''r0'' example_wallet) \<and> \<not> fst (secret_used ''r1'' example_wallet)
   \<and> \<not> fst (secret_used ''r2'' example_wallet) \<and> \<not> fst (secret_used ''r3'' example_wallet)
   \<and> (\<exists>payloads.
         map msg_amount payloads = [1, 2, 4, 8]
         \<and> new_events example_wallet
              (snd (LedgerAPI_split example_world example_pile 14 None example_wallet))
             = [SecretUsed ''r0'', SecretUsed ''r1'', SecretUsed ''r2'', SecretUsed ''r3'',
                Post (SplitRequest example_pile 14 payloads)]
         \<and> Post (SplitRequest example_pile 14 payloads)
              \<in> set (new_events example_wallet
                       (snd (Wallet_split example_world example_pile 14 None example_wallet))))"
proof -
  have r: "(14::int) < 0 \<or> sum_list (map amount example_pile) < 14"
    by (simp add: example_total)
  have f: "\<forall>s\<in>set (split_candidates example_world example_pile 14 None example_wallet).
             \<not> fst (secret_used s example_wallet)"
    by (simp add: example_split_candidates example_secret_used)
  have ne: "example_pile \<noteq> []"
    by (simp add: example_pile_def)
  from split_out_of_range_is_posted [OF r f] show ?thesis
    using r ne by (auto simp: example_split_candidates example_secret_used example_total example_splits)
qed

text \<open>
  C3 as the spec states it (an amount outside the range fails before any network call)
  does not hold: splitting 14 out of the example pile of 13 posts a request with four
  outputs, and the call fails only with the error that the mint answers.
\<close>

theorem split_out_of_range_counterexample:
  "sum_list (map amount example_pile) < 14
   \<and> fst (Wallet_split example_world example_pile 14 None example_wallet)
       = Inl (Exception ''Mint Error: split amount is higher than the total sum'')
   \<and> new_events example_wallet (snd (Wallet_split example_world example_pile 14 None example_wallet))
       = [SecretUsed ''r0'', SecretUsed ''r1'', SecretUsed ''r2'', SecretUsed ''r3'',
          Post (SplitRequest example_pile 14
                  [BlindedMessage 1 ''B-r0'', BlindedMessage 2 ''B-r1'',
                   BlindedMessage 4 ''B-r2'', BlindedMessage 8 ''B-r3''])]
   \<and> list_ex is_post
         (new_events example_wallet (snd (Wallet_split example_world example_pile 14 None example_wallet)))"
  by (simp add: example_out_of_range example_total new_events_def)
     (simp add: example_wallet_def)


section \<open>Sending from the proofs that are not reserved\<close>

lemma construct_proofs_loop_errors:
  "construct_proofs_loop w xs acc = Inl e \<Longrightarrow> e = ValueError \<or> e = KeyError"
proof (induction xs arbitrary: acc)
  case Nil
  then show ?case by simp
next
  case (Cons x xs)
  obtain promise s r where x: "x = (promise, s, r)" by (cases x)
  from Cons.prems x show ?case
    by (auto split: if_splits option.splits dest: Cons.IH)
qed

lemma split_answer_not_balance:
  "split_answer w secrets rs resp \<noteq> Inl (Exception ''balance too low.'')"
  by (auto simp: split_answer_def construct_proofs_def
        split: response.splits sum.splits prod.splits dest: construct_proofs_loop_errors)

lemma LedgerAPI_split_not_balance:
  "fst (LedgerAPI_split w proofs_in amt scnd_secret st) \<noteq> Inl (Exception ''balance too low.'')"
proof (cases "\<exists>s\<in>set (split_candidates w proofs_in amt scnd_secret st). fst (secret_used s st)")
  case True
  from LedgerAPI_split_used [OF split_candidates_eq True] show ?thesis
    by auto
next
  case False
  then have "\<forall>s\<in>set (split_candidates w proofs_in amt scnd_secret st). \<not> fst (secret_used s st)"
    by blast
  from LedgerAPI_split_fresh [OF split_candidates_eq this] show ?thesis
    by (auto simp: split_answer_not_balance)
qed

lemma Wallet_split_not_balance:
  "fst (Wallet_split w proofs_in amt scnd_secret st) \<noteq> Inl (Exception ''balance too low.'')"
proof (cases "LedgerAPI_split w proofs_in amt scnd_secret st")
  case (Pair r st1)
  with LedgerAPI_split_not_balance [of w proofs_in amt scnd_secret st]
  show ?thesis
    by (auto simp: Wallet_split_def Let_def split: sum.splits)
qed

lemma example_unreserved: "unreserved example_pile = example_pile"
  by (simp add: unreserved_def example_pile_def)

text \<open>
  C6, as the code has it. \<^verbatim>\<open>split_to_send\<close> keeps the proofs that are not reserved
  and hands them to \<^verbatim>\<open>split\<close>. It fails with the error \<^verbatim>\<open>balance too low.\<close> exactly
  when no proof is left; when some proof is left, also when they add up to less than
  the amount, its outcome is the outcome of \<^verbatim>\<open>split\<close> on them, which is never that
  error.
\<close>

theorem split_to_send_balance_error:
  "(unreserved proofs_in = [] \<longrightarrow>
      Wallet_split_to_send w proofs_in amt scnd_secret st
        = (Inl (Exception ''balance too low.''), st))
   \<and> (unreserved proofs_in \<noteq> [] \<longrightarrow>
      Wallet_split_to_send w proofs_in amt scnd_secret st
        = Wallet_split w (unreserved proofs_in) amt scnd_secret st
      \<and> fst (Wallet_split_to_send w proofs_in amt scnd_secret st)
          \<noteq> Inl (Exception ''balance too low.''))"
  using Wallet_split_not_balance [of w "unreserved proofs_in" amt scnd_secret st]
  by (simp add: Wallet_split_to_send_def unreserved_def)

theorem split_to_send_balance_error_witness:
  "unreserved [] = []
   \<and> Wallet_split_to_send example_world [] 14 None example_wallet
       = (Inl (Exception ''balance too low.''), example_wallet)
   \<and> unreserved example_pile \<noteq> []
   \<and> sum_list (map amount (unreserved example_pile)) < 14
   \<and> Wallet_split_to_send example_world example_pile 14 None example_wallet
       = Wallet_split example_world (unreserved example_pile) 14 None example_wallet
   \<and> fst (Wallet_split_to_send example_world example_pile 14 None example_wallet)
       \<noteq> Inl (Exception ''balance too low.'')"
proof -
  have e: "unreserved [] = []"
    by (simp add: unreserved_def)
  have n: "unreserved example_pile \<noteq> []"
    by (simp add: example_unreserved) (simp add: example_pile_def)
  have l: "sum_list (map amount (unreserved example_pile)) < 14"
    by (simp add: example_unreserved example_total)
  from split_to_send_balance_error [of "[]" example_world 14 None example_wallet] e
  have 1: "Wallet_split_to_send example_world [] 14 None example_wallet
             = (Inl (Exception ''balance too low.''), example_wallet)"
    by blast
  from split_to_send_balance_error [of example_pile example_world 14 None example_wallet] n
  have 2: "Wallet_split_to_send example_world example_pile 14 None example_wallet
             = Wallet_split example_world (unreserved example_pile) 14 None example_wallet
           \<and> fst (Wallet_split_to_send example_world example_pile 14 None example_wallet)
               \<noteq> Inl (Exception ''balance too low.'')"
    by blast
  from e 1 n l 2 show ?thesis by blast
qed

text \<open>
  C6 as the spec states it (the balance error also when the proofs that are not reserved
  add up to less than the amount) does not hold: sending 14 out of the example pile of
  13, none of it reserved, posts a split request and fails with the error of the mint.
\<close>

theorem split_to_send_balance_counterexample:
  "sum_list (map amount (unreserved example_pile)) < 14
   \<and> fst (Wallet_split_to_send example_world example_pile 14 None example_wallet)
       = Inl (Exception ''Mint Error: split amount is higher than the total sum'')
   \<and> fst (Wallet_split_to_send example_world example_pile 14 None example_wallet)
       \<noteq> Inl (Exception ''balance too low.'')
   \<and> list_ex is_post
         (new_events example_wallet
            (snd (Wallet_split_to_send example_world example_pile 14 None example_wallet)))"
proof -
  have "Wallet_split_to_send example_world example_pile 14 None example_wallet
          = Wallet_split example_world example_pile 14 None example_wallet"
    by (simp add: Wallet_split_to_send_def) (simp add: example_pile_def)
  then show ?thesis
    by (simp add: example_out_of_range example_unreserved example_total new_events_def)
       (simp add: example_wallet_def)
qed


section \<open>Paying a Lightning invoice\<close>

lemma invalidate_all_store:
  "db_proofs (fold invalidate_proof ps st)
     = filter (\<lambda>q. secret q \<notin> set (map secret ps)) (db_proofs st)"
  "db_spent (fold invalidate_proof ps st) = db_spent st @ map secret ps"
  by (induction ps arbitrary: st) (simp_all add: invalidate_proof_def log_event_def conj_commute)

lemma invalidate_loop_in_range:
  assumes "\<forall>(idx, spendable)\<in>set items. spendable \<or> (0 \<le> idx \<and> idx < int (length proofs_in))"
  shows "invalidate_loop proofs_in items invalidated st
           = (Inr (invalidated @ reported_spent proofs_in items),
              fold invalidate_proof (reported_spent proofs_in items) st)"
  using assms
proof (induction items arbitrary: invalidated st)
  case Nil
  then show ?case by (simp add: reported_spent_def)
next
  case (Cons item items)
  obtain idx spendable where item: "item = (idx, spendable)" by (cases item)
  from Cons.prems have rest:
    "\<forall>(idx, spendable)\<in>set items. spendable \<or> (0 \<le> idx \<and> idx < int (length proofs_in))"
    by simp
  show ?case
  proof (cases spendable)
    case True
    with item Cons.IH [OF rest] show ?thesis
      by (simp add: reported_spent_def)
  next
    case False
    with Cons.prems item have "0 \<le> idx" "idx < int (length proofs_in)"
      by auto
    then have "py_index proofs_in idx = Inr (proofs_in ! nat idx)"
      by (simp add: py_index_def)
    with False item Cons.IH [OF rest] show ?thesis
      by (simp add: reported_spent_def)
  qed
qed

lemma Wallet_pay_lightning_unpaid:
  assumes "post_melt w proofs_in invoice = Body False"
  shows "Wallet_pay_lightning w proofs_in invoice st
           = (Inl (Exception ''could not pay invoice.''),
              st\<lparr>trace := trace st @ [Post (MeltRequest proofs_in invoice)]\<rparr>)"
  using assms
  by (simp add: Wallet_pay_lightning_def LedgerAPI_pay_lightning_def log_event_def)

lemma Wallet_pay_lightning_paid:
  assumes "post_melt w proofs_in invoice = Body True"
    and "post_check w proofs_in = Body items"
    and "\<forall>(idx, spendable)\<in>set items. spendable \<or> (0 \<le> idx \<and> idx < int (length proofs_in))"
  shows "fst (Wallet_pay_lightning w proofs_in invoice st) = Inr True"
    and "proofs (snd (Wallet_pay_lightning w proofs_in invoice st))
           = filter (\<lambda>p. secret p \<notin> set (map secret (reported_spent proofs_in items))) (proofs st)"
    and "db_proofs (snd (Wallet_pay_lightning w proofs_in invoice st))
           = filter (\<lambda>p. secret p \<notin> set (map secret (reported_spent proofs_in items))) (db_proofs st)"
    and "db_spent (snd (Wallet_pay_lightning w proofs_in invoice st))
           = db_spent st @ map secret (reported_spent proofs_in items)"
  using assms(1,2) invalidate_loop_in_range [OF assms(3)]
  by (simp_all add: Wallet_pay_lightning_def LedgerAPI_pay_lightning_def Wallet_invalidate_def
        LedgerAPI_check_spendable_def log_event_def set_proofs_def invalidate_all_store
        invalidate_all_trace)

lemma reported_spent_all:
  "reported_spent pile (map (\<lambda>i. (int i, False)) [0..<length pile]) = pile"
  by (simp add: reported_spent_def comp_def map_nth)

lemma reported_spent_none:
  "reported_spent pile (map (\<lambda>i. (int i, True)) [0..<length pile]) = []"
  by (simp add: reported_spent_def comp_def)

lemma example_melt:
  "post_melt example_world example_pile ''lnbc'' = Body True"
  "post_check example_world example_pile = Body (map (\<lambda>i. (int i, False)) [0..<length example_pile])"
  "post_melt unpaid_world example_pile ''lnbc'' = Body False"
  "post_melt lagging_world example_pile ''lnbc'' = Body True"
  "post_check lagging_world example_pile = Body (map (\<lambda>i. (int i, True)) [0..<length example_pile])"
  by (simp_all add: example_world_def unpaid_world_def lagging_world_def)

text \<open>
  C7, as the code has it. When the melt answer has \<open>paid = false\<close>,
  \<^verbatim>\<open>pay_lightning\<close> raises \<^verbatim>\<open>could not pay invoice.\<close> and leaves the proofs in
  memory and the store as they were. When it has \<open>paid = true\<close>, the wallet asks the
  mint's \<^verbatim>\<open>/check\<close> and invalidates the input proofs that the answer reports as not
  spendable, those and no others: they are removed from memory by their secrets and
  invalidated in the store. So all input proofs are invalidated when \<^verbatim>\<open>/check\<close>
  reports every one of them as not spendable.
\<close>

theorem pay_lightning_outcome:
  "(post_melt w proofs_in invoice = Body False \<longrightarrow>
      Wallet_pay_lightning w proofs_in invoice st
        = (Inl (Exception ''could not pay invoice.''),
           st\<lparr>trace := trace st @ [Post (MeltRequest proofs_in invoice)]\<rparr>))
   \<and> (post_melt w proofs_in invoice = Body True
        \<and> post_check w proofs_in = Body items
        \<and> (\<forall>(idx, spendable)\<in>set items. spendable \<or> (0 \<le> idx \<and> idx < int (length proofs_in))) \<longrightarrow>
      fst (Wallet_pay_lightning w proofs_in invoice st) = Inr True
      \<and> proofs (snd (Wallet_pay_lightning w proofs_in invoice st))
          = filter (\<lambda>p. secret p \<notin> set (map secret (reported_spent proofs_in items))) (proofs st)
      \<and> db_proofs (snd (Wallet_pay_lightning w proofs_in invoice st))
          = filter (\<lambda>p. secret p \<notin> set (map secret (reported_spent proofs_in items))) (db_proofs st)
      \<and> db_spent (snd (Wallet_pay_lightning w proofs_in invoice st))
          = db_spent st @ map secret (reported_spent proofs_in items))
   \<and> (post_melt w proofs_in invoice = Body True
        \<and> post_check w proofs_in = Body (map (\<lambda>i. (int i, False)) [0..<length proofs_in]) \<longrightarrow>
      fst (Wallet_pay_lightning w proofs_in invoice st) = Inr True
      \<and> (\<forall>p\<in>set proofs_in.
            secret p \<notin> set (map secret (proofs (snd (Wallet_pay_lightning w proofs_in invoice st))))
            \<and> secret p \<notin> set (map secret (db_proofs (snd (Wallet_pay_lightning w proofs_in invoice st))))
            \<and> fst (secret_used (secret p) (snd (Wallet_pay_lightning w proofs_in invoice st)))))"
proof (intro conjI impI)
  assume "post_melt w proofs_in invoice = Body False"
  then show "Wallet_pay_lightning w proofs_in invoice st
        = (Inl (Exception ''could not pay invoice.''),
           st\<lparr>trace := trace st @ [Post (MeltRequest proofs_in invoice)]\<rparr>)"
    by (rule Wallet_pay_lightning_unpaid)
next
  assume a: "post_melt w proofs_in invoice = Body True
        \<and> post_check w proofs_in = Body items
        \<and> (\<forall>(idx, spendable)\<in>set items. spendable \<or> (0 \<le> idx \<and> idx < int (length proofs_in)))"
  then have a1: "post_melt w proofs_in invoice = Body True" and a2: "post_check w proofs_in = Body items"
    and a3: "\<forall>(idx, spendable)\<in>set items. spendable \<or> (0 \<le> idx \<and> idx < int (length proofs_in))"
    by blast+
  show "fst (Wallet_pay_lightning w proofs_in invoice st) = Inr True"
    by (rule Wallet_pay_lightning_paid(1) [OF a1 a2 a3])
  show "proofs (snd (Wallet_pay_lightning w proofs_in invoice st))
          = filter (\<lambda>p. secret p \<notin> set (map secret (reported_spent proofs_in items))) (proofs st)"
    by (rule Wallet_pay_lightning_paid(2) [OF a1 a2 a3])
  show "db_proofs (snd (Wallet_pay_lightning w proofs_in invoice st))
          = filter (\<lambda>p. secret p \<notin> set (map secret (reported_spent proofs_in items))) (db_proofs st)"
    by (rule Wallet_pay_lightning_paid(3) [OF a1 a2 a3])
  show "db_spent (snd (Wallet_pay_lightning w proofs_in invoice st))
          = db_spent st @ map secret (reported_spent proofs_in items)"
    by (rule Wallet_pay_lightning_paid(4) [OF a1 a2 a3])
next
  let ?items = "map (\<lambda>i. (int i, False)) [0..<length proofs_in]"
  let ?st' = "snd (Wallet_pay_lightning w proofs_in invoice st)"
  assume a: "post_melt w proofs_in invoice = Body True \<and> post_check w proofs_in = Body ?items"
  then have a1: "post_melt w proofs_in invoice = Body True" and a2: "post_check w proofs_in = Body ?items"
    by blast+
  have a3: "\<forall>(idx, spendable)\<in>set ?items. spendable \<or> (0 \<le> idx \<and> idx < int (length proofs_in))"
    by auto
  show "fst (Wallet_pay_lightning w proofs_in invoice st) = Inr True"
    by (rule Wallet_pay_lightning_paid(1) [OF a1 a2 a3])
  show "\<forall>p\<in>set proofs_in.
            secret p \<notin> set (map secret (proofs ?st'))
            \<and> secret p \<notin> set (map secret (db_proofs ?st'))
            \<and> fst (secret_used (secret p) ?st')"
    using Wallet_pay_lightning_paid(2,3,4) [OF a1 a2 a3, of st]
    by (auto simp: reported_spent_all secret_used_def) (metis image_eqI)+
qed


theorem pay_lightning_outcome_witness:
  "post_melt unpaid_world example_pile ''lnbc'' = Body False
   \<and> Wallet_pay_lightning unpaid_world example_pile ''lnbc'' example_wallet
       = (Inl (Exception ''could not pay invoice.''),
          example_wallet\<lparr>trace := trace example_wallet @ [Post (MeltRequest example_pile ''lnbc'')]\<rparr>)
   \<and> post_melt example_world example_pile ''lnbc'' = Body True
   \<and> fst (Wallet_pay_lightning example_world example_pile ''lnbc'' example_wallet) = Inr True
   \<and> proofs (snd (Wallet_pay_lightning example_world example_pile ''lnbc'' example_wallet)) = []
   \<and> db_proofs (snd (Wallet_pay_lightning example_world example_pile ''lnbc'' example_wallet)) = []
   \<and> db_spent (snd (Wallet_pay_lightning example_world example_pile ''lnbc'' example_wallet))
       = [''in8'', ''in4'', ''in1'']"
proof -
  let ?items = "map (\<lambda>i. (int i, False)) [0..<length example_pile]"
  have r: "\<forall>(idx, spendable)\<in>set ?items. spendable \<or> (0 \<le> idx \<and> idx < int (length example_pile))"
    by auto
  from pay_lightning_outcome [of unpaid_world example_pile "''lnbc''" example_wallet ?items]
       example_melt(3)
  have 1: "Wallet_pay_lightning unpaid_world example_pile ''lnbc'' example_wallet
       = (Inl (Exception ''could not pay invoice.''),
          example_wallet\<lparr>trace := trace example_wallet @ [Post (MeltRequest example_pile ''lnbc'')]\<rparr>)"
    by blast
  from pay_lightning_outcome [of example_world example_pile "''lnbc''" example_wallet ?items]
       example_melt(1,2) r
  have 2: "fst (Wallet_pay_lightning example_world example_pile ''lnbc'' example_wallet) = Inr True
      \<and> proofs (snd (Wallet_pay_lightning example_world example_pile ''lnbc'' example_wallet))
          = filter (\<lambda>p. secret p \<notin> set (map secret (reported_spent example_pile ?items))) (proofs example_wallet)
      \<and> db_proofs (snd (Wallet_pay_lightning example_world example_pile ''lnbc'' example_wallet))
          = filter (\<lambda>p. secret p \<notin> set (map secret (reported_spent example_pile ?items))) (db_proofs example_wallet)
      \<and> db_spent (snd (Wallet_pay_lightning example_world example_pile ''lnbc'' example_wallet))
          = db_spent example_wallet @ map secret (reported_spent example_pile ?items)"
    by blast
  have 3: "filter (\<lambda>p. secret p \<notin> set (map secret example_pile)) example_pile = []"
    by simp
  from 1 2 3 example_melt(1,3) show ?thesis
    by (simp add: reported_spent_all example_wallet_def) (simp add: example_pile_def)
qed

text \<open>
  C7 as the spec states it (\<open>paid = true\<close> invalidates all input proofs) does not hold:
  with a mint that pays the invoice and whose \<^verbatim>\<open>/check\<close> still reports the proofs as
  spendable, \<^verbatim>\<open>pay_lightning\<close> returns true and every input proof stays in memory and
  in the store.
\<close>

theorem pay_lightning_counterexample:
  "post_melt lagging_world example_pile ''lnbc'' = Body True
   \<and> fst (Wallet_pay_lightning lagging_world example_pile ''lnbc'' example_wallet) = Inr True
   \<and> proofs (snd (Wallet_pay_lightning lagging_world example_pile ''lnbc'' example_wallet))
       = example_pile
   \<and> db_proofs (snd (Wallet_pay_lightning lagging_world example_pile ''lnbc'' example_wallet))
       = example_pile
   \<and> db_spent (snd (Wallet_pay_lightning lagging_world example_pile ''lnbc'' example_wallet)) = []"
proof -
  let ?items = "map (\<lambda>i. (int i, True)) [0..<length example_pile]"
  have r: "\<forall>(idx, spendable)\<in>set ?items. spendable \<or> (0 \<le> idx \<and> idx < int (length example_pile))"
    by auto
  from Wallet_pay_lightning_paid [OF example_melt(4,5) r, of example_wallet] example_melt(4)
  show ?thesis
    by (simp add: reported_spent_none example_wallet_def)
qed


section \<open>Expanding a secret\<close>

text \<open>
  Splitting on a separator yields at least two parts exactly when the string contains
  the separator; it yields exactly two when, read from the left, the separator occurs
  once.
\<close>

lemma str_split_from_nonempty: "str_split_from sep acc s \<noteq> []"
  by (induction sep acc s rule: str_split_from.induct) (subst str_split_from.simps, simp)

lemma str_split_from_contains:
  "sep \<noteq> [] \<Longrightarrow> (2 \<le> length (str_split_from sep acc s)) = (\<exists>u v. s = u @ sep @ v)"
proof (induction sep acc s rule: str_split_from.induct)
  case (1 sep acc s)
  show ?case
  proof (cases "s = []")
    case True
    with "1.prems" show ?thesis
      by (subst str_split_from.simps) simp
  next
    case ne: False
    show ?thesis
    proof (cases "prefix sep s")
      case True
      then obtain v where "s = sep @ v" by (auto simp: prefix_def)
      then have "\<exists>u v. s = u @ sep @ v" by (metis append_Nil)
      moreover have "2 \<le> length (str_split_from sep acc s)"
        using ne True "1.prems" str_split_from_nonempty [of sep "[]" "drop (length sep) s"]
        by (subst str_split_from.simps) (cases "str_split_from sep [] (drop (length sep) s)", simp_all)
      ultimately show ?thesis by simp
    next
      case False
      have "(\<exists>u v. s = u @ sep @ v) = (\<exists>u v. tl s = u @ sep @ v)"
      proof
        assume "\<exists>u v. s = u @ sep @ v"
        then obtain u v where uv: "s = u @ sep @ v" by blast
        with False have "u \<noteq> []" by (auto simp: prefix_def)
        then obtain x u' where "u = x # u'" by (cases u) auto
        with uv have "tl s = u' @ sep @ v" by simp
        then show "\<exists>u v. tl s = u @ sep @ v" by blast
      next
        assume "\<exists>u v. tl s = u @ sep @ v"
        then obtain u v where "tl s = u @ sep @ v" by blast
        with ne have "s = (hd s # u) @ sep @ v" by (cases s) auto
        then show "\<exists>u v. s = u @ sep @ v" by blast
      qed
      moreover have "str_split_from sep acc s = str_split_from sep (acc @ [hd s]) (tl s)"
        using ne False by (subst str_split_from.simps) simp
      ultimately show ?thesis
        using "1.IH"(2) [OF ne _ "1.prems"] False by simp
    qed
  qed
qed

lemma str_split_contains:
  "sep \<noteq> [] \<Longrightarrow> (2 \<le> length (str_split s sep)) = (\<exists>u v. s = u @ sep @ v)"
  by (simp add: str_split_def str_split_from_contains)

lemma distinct_tagged:
  "distinct (map (\<lambda>i. base @ CHR '':'' # f i) xs) = (distinct xs \<and> inj_on f (set xs))"
proof -
  have "inj_on (\<lambda>i. base @ CHR '':'' # f i) (set xs) = inj_on f (set xs)"
    by (auto simp: inj_on_def)
  then show ?thesis by (simp add: distinct_map)
qed

lemma example_marker:
  "length (str_split ''P2SH:abc'' ''P2SH:'') = 2"
  "length (str_split ''abc'' ''P2SH:'') \<noteq> 2"
  "length (str_split ''P2SH:P2SH:x'' ''P2SH:'') \<noteq> 2"
  by code_simp+

lemma example_range: "py_range 2 = [0, 1]"
  by (simp add: py_range_def example_upt)

lemma example_str_int: "str_int 0 = ''0''" "str_int 1 = ''1''"
  by (simp_all add: str_int_def str_nat_digit)

lemma example_fresh: "inj_on (token_urlsafe example_world) {0..<2}"
proof -
  have "{0..<2::nat} = {0, 1}" by auto
  then show ?thesis
    by (simp add: example_world_def str_nat_digit)
qed

text \<open>
  C8. When splitting the base on the marker \<^verbatim>\<open>P2SH:\<close> yields exactly two parts,
  \<^verbatim>\<open>generate_secrets(base, n)\<close> yields \<open>n\<close> strings, each the base, a colon and the next
  random secret; so each starts with the base and a colon, and they are pairwise
  distinct when the random secrets drawn are. Otherwise it yields the list of
  \<^verbatim>\<open>0:base\<close>, \<^verbatim>\<open>1:base\<close> up to \<^verbatim>\<open>(n-1):base\<close>, in this order, and draws no
  random secret. (For \<open>n \<le> 0\<close> both lists are empty, as \<^verbatim>\<open>range(n)\<close> is.)
\<close>

theorem generate_secrets_expansion:
  "(length (str_split base ''P2SH:'') = 2 \<longrightarrow>
      fst (generate_secrets w base n st)
        = map (\<lambda>i. base @ '':'' @ token_urlsafe w i) [drawn st..<drawn st + nat n]
      \<and> length (fst (generate_secrets w base n st)) = nat n
      \<and> (\<forall>s\<in>set (fst (generate_secrets w base n st)). prefix (base @ '':'') s)
      \<and> (inj_on (token_urlsafe w) {drawn st..<drawn st + nat n} \<longrightarrow>
            distinct (fst (generate_secrets w base n st))))
   \<and> (length (str_split base ''P2SH:'') \<noteq> 2 \<longrightarrow>
      generate_secrets w base n st = (map (\<lambda>i. str_int i @ '':'' @ base) (py_range n), st))"
  by (auto simp: generate_secrets_def p2sh_secrets_eq distinct_tagged)

theorem generate_secrets_expansion_witness:
  "length (str_split ''P2SH:abc'' ''P2SH:'') = 2
   \<and> inj_on (token_urlsafe example_world) {0..<2}
   \<and> fst (generate_secrets example_world ''P2SH:abc'' 2 example_wallet)
       = [''P2SH:abc:r0'', ''P2SH:abc:r1'']
   \<and> distinct (fst (generate_secrets example_world ''P2SH:abc'' 2 example_wallet))
   \<and> length (str_split ''abc'' ''P2SH:'') \<noteq> 2
   \<and> generate_secrets example_world ''abc'' 2 example_wallet = ([''0:abc'', ''1:abc''], example_wallet)
   \<and> length (str_split ''P2SH:P2SH:x'' ''P2SH:'') \<noteq> 2
   \<and> generate_secrets example_world ''P2SH:P2SH:x'' 2 example_wallet
       = ([''0:P2SH:P2SH:x'', ''1:P2SH:P2SH:x''], example_wallet)"
proof -
  have d: "drawn example_wallet = 0"
    by (simp add: example_wallet_def)
  have t: "token_urlsafe example_world 0 = ''r0''" "token_urlsafe example_world 1 = ''r1''"
          "token_urlsafe example_world (Suc 0) = ''r1''"
    by (simp_all add: example_world_def str_nat_digit)
  from generate_secrets_expansion [of "''P2SH:abc''" example_world 2 example_wallet]
       example_marker(1) example_fresh
  have 1: "fst (generate_secrets example_world ''P2SH:abc'' 2 example_wallet)
             = [''P2SH:abc:r0'', ''P2SH:abc:r1'']
           \<and> distinct (fst (generate_secrets example_world ''P2SH:abc'' 2 example_wallet))"
    by (simp add: d example_upt t)
  from generate_secrets_expansion [of "''abc''" example_world 2 example_wallet] example_marker(2)
  have 2: "generate_secrets example_world ''abc'' 2 example_wallet
             = ([''0:abc'', ''1:abc''], example_wallet)"
    by (simp add: example_range example_str_int)
  from generate_secrets_expansion [of "''P2SH:P2SH:x''" example_world 2 example_wallet] example_marker(3)
  have 3: "generate_secrets example_world ''P2SH:P2SH:x'' 2 example_wallet
       = ([''0:P2SH:P2SH:x'', ''1:P2SH:P2SH:x''], example_wallet)"
    by (simp add: example_range example_str_int)
  from 1 2 3 example_marker example_fresh show ?thesis
    by blast
qed


section \<open>Reserving proofs\<close>

text \<open>
  Whatever the flag, every proof of the batch is reserved in memory after
  \<^verbatim>\<open>set_reserved\<close>; the store is given the flag, with one send id for the whole batch.
\<close>

lemma set_reserved_loop_memory:
  "fst (set_reserved_loop uuid_str flag ps st) = map (\<lambda>p. p\<lparr>reserved := True\<rparr>) ps"
  by (induction ps arbitrary: st) (simp_all add: case_prod_unfold Let_def)

lemma set_reserved_loop_trace:
  "trace (snd (set_reserved_loop uuid_str flag ps st))
     = trace st @ map (\<lambda>p. UpdateProofReserved (p\<lparr>reserved := True\<rparr>) flag uuid_str) ps"
  by (induction ps arbitrary: st)
     (simp_all add: case_prod_unfold Let_def update_proof_reserved_def log_event_def)

lemma set_reserved_memory:
  "map reserved (fst (Wallet_set_reserved w proofs_in flag st)) = replicate (length proofs_in) True"
  by (simp add: Wallet_set_reserved_def set_reserved_loop_memory comp_def map_replicate_const)

lemma set_reserved_persisted:
  "new_events st (snd (Wallet_set_reserved w proofs_in flag st))
     = map (\<lambda>p. UpdateProofReserved (p\<lparr>reserved := True\<rparr>) flag (uuid1 w (uuids st))) proofs_in"
  by (simp add: Wallet_set_reserved_def set_reserved_loop_trace new_events_def)

text \<open>
  C5 says that \<^verbatim>\<open>set_reserved(proofs, b)\<close> sets the reserved field of each proof in
  memory to \<open>b\<close>. The code does not: after \<^verbatim>\<open>set_reserved(proofs, False)\<close> on the example
  pile, every proof of the batch is reserved in memory, while the store holds the flag
  false and the one send id for each of them.
\<close>

theorem set_reserved_false_marks_reserved:
  "map reserved (fst (Wallet_set_reserved example_world example_pile False example_wallet))
     = [True, True, True]
   \<and> map reserved (db_proofs (snd (Wallet_set_reserved example_world example_pile False example_wallet)))
     = [False, False, False]
   \<and> map send_id (db_proofs (snd (Wallet_set_reserved example_world example_pile False example_wallet)))
     = [Some ''uuid-0'', Some ''uuid-0'', Some ''uuid-0'']"
  by (simp add: Wallet_set_reserved_def update_proof_reserved_def log_event_def Let_def
        example_world_def example_wallet_def example_pile_def str_nat_digit)


section \<open>When a split returns\<close>

text \<open>
  \<^verbatim>\<open>Wallet.split\<close> returns its two piles when the pile is not empty and has a positive
  total, the amount is in range, no candidate secret is used, the mint answers the
  outputs positionally with signatures that are curve points, and the keyset has a key
  for every denomination. With a pile of total 0 and the amount 0 there is no output,
  and the call raises \<^verbatim>\<open>received no splits.\<close>
\<close>

lemma construct_proofs_loop_Inr:
  "\<forall>x\<in>set xs. valid_point w (C' (fst x)) \<and> keys w (sig_amount (fst x)) \<noteq> None \<Longrightarrow>
     \<exists>ps. construct_proofs_loop w xs acc = Inr ps \<and> length ps = length acc + length xs"
proof (induction xs arbitrary: acc)
  case Nil
  then show ?case by simp
next
  case (Cons x xs)
  obtain promise s r where x: "x = (promise, s, r)" by (cases x)
  from Cons.prems x obtain k where k: "valid_point w (C' promise)" "keys w (sig_amount promise) = Some k"
    by auto
  from Cons.prems have "\<forall>x\<in>set xs. valid_point w (C' (fst x)) \<and> keys w (sig_amount (fst x)) \<noteq> None"
    by simp
  from Cons.IH [OF this, of "acc @ [\<lparr>amount = sig_amount promise,
         C = step3_alice w (C' promise) r k, secret = s, reserved = False, send_id = None\<rparr>]"]
    x k show ?case
    by simp
qed

lemma construct_proofs_Inr:
  assumes "\<forall>p\<in>set promises. valid_point w (C' p) \<and> keys w (sig_amount p) \<noteq> None"
    and "length secrets = length promises" and "length rs = length promises"
  shows "\<exists>ps. construct_proofs w promises secrets rs = Inr ps \<and> length ps = length promises"
proof -
  have "\<forall>x\<in>set (zip promises (zip secrets rs)).
          valid_point w (C' (fst x)) \<and> keys w (sig_amount (fst x)) \<noteq> None"
    using assms(1) by (auto dest: set_zip_leftD)
  from construct_proofs_loop_Inr [OF this, of "[]"] assms(2,3) show ?thesis
    by (simp add: construct_proofs_def)
qed

lemma Wallet_split_returns:
  assumes nonempty: "proofs_in \<noteq> []"
    and range: "0 \<le> amt" "amt \<le> sum_list (map amount proofs_in)"
    and positive: "0 < sum_list (map amount proofs_in)"
    and fresh: "\<forall>s\<in>set (split_candidates w proofs_in amt scnd_secret st). \<not> fst (secret_used s st)"
    and mint: "\<And>outs.
        map msg_amount outs
          = amount_split (sum_list (map amount proofs_in) - amt) @ amount_split amt \<Longrightarrow>
        \<exists>promises_fst promises_snd.
          post_split w proofs_in amt outs = Body (promises_fst, promises_snd)
          \<and> map sig_amount promises_fst = amount_split (sum_list (map amount proofs_in) - amt)
          \<and> map sig_amount promises_snd = amount_split amt
          \<and> (\<forall>p\<in>set (promises_fst @ promises_snd). valid_point w (C' p))"
    and keyset: "\<forall>a\<in>set (amount_split (sum_list (map amount proofs_in) - amt) @ amount_split amt).
                   keys w a \<noteq> None"
  shows "\<exists>keep send st'. Wallet_split w proofs_in amt scnd_secret st = (Inr (keep, send), st')"
proof -
  let ?ko = "amount_split (sum_list (map amount proofs_in) - amt)"
  let ?so = "amount_split amt"
  let ?secrets = "split_candidates w proofs_in amt scnd_secret st"
  from LedgerAPI_split_fresh [OF split_candidates_eq fresh] obtain payloads rs where
    f: "map msg_amount payloads = ?ko @ ?so" "length rs = length ?secrets"
       "fst (LedgerAPI_split w proofs_in amt scnd_secret st)
          = split_answer w ?secrets rs (post_split w proofs_in amt payloads)"
    by auto
  from split_secrets_Inr [of w ?ko ?so scnd_secret st] have
    len: "length ?secrets = length ?ko + length ?so"
    by (auto simp: split_candidates_def)
  from mint [OF f(1)] obtain promises_fst promises_snd where
    b: "post_split w proofs_in amt payloads = Body (promises_fst, promises_snd)"
       "map sig_amount promises_fst = ?ko" "map sig_amount promises_snd = ?so"
       "\<forall>p\<in>set (promises_fst @ promises_snd). valid_point w (C' p)"
    by blast
  from b(2,3) have lens: "length promises_fst = length ?ko" "length promises_snd = length ?so"
    by (metis length_map)+
  have k1: "\<forall>p\<in>set promises_fst. valid_point w (C' p) \<and> keys w (sig_amount p) \<noteq> None"
  proof
    fix p assume p: "p \<in> set promises_fst"
    then have "sig_amount p \<in> set (map sig_amount promises_fst)" by simp
    with b(2) keyset b(4) p show "valid_point w (C' p) \<and> keys w (sig_amount p) \<noteq> None"
      by auto
  qed
  have k2: "\<forall>p\<in>set promises_snd. valid_point w (C' p) \<and> keys w (sig_amount p) \<noteq> None"
  proof
    fix p assume p: "p \<in> set promises_snd"
    then have "sig_amount p \<in> set (map sig_amount promises_snd)" by simp
    with b(3) keyset b(4) p show "valid_point w (C' p) \<and> keys w (sig_amount p) \<noteq> None"
      by auto
  qed
  from construct_proofs_Inr [OF k1, of "take (length promises_fst) ?secrets" "take (length promises_fst) rs"]
  obtain keep where keep: "construct_proofs w promises_fst (take (length promises_fst) ?secrets)
      (take (length promises_fst) rs) = Inr keep" "length keep = length promises_fst"
    using lens len f(2) by auto
  from construct_proofs_Inr [OF k2, of "drop (length promises_fst) ?secrets" "drop (length promises_fst) rs"]
  obtain send where send: "construct_proofs w promises_snd (drop (length promises_fst) ?secrets)
      (drop (length promises_fst) rs) = Inr send" "length send = length promises_snd"
    using lens len f(2) by auto
  have l: "fst (LedgerAPI_split w proofs_in amt scnd_secret st) = Inr (keep, send)"
    using f(3) b(1) keep(1) send(1) by (simp add: split_answer_def)
  have "\<not> (length keep = 0 \<and> length send = 0)"
  proof
    assume "length keep = 0 \<and> length send = 0"
    with keep(2) send(2) lens have e: "?ko = []" "?so = []" by simp_all
    have "0 \<le> sum_list (map amount proofs_in) - amt" using range by simp
    from amount_split_nonneg(1) [OF this] amount_split_nonneg(1) [OF range(1)] e
    have "sum_list (map amount proofs_in) = 0" by simp
    with positive show False by simp
  qed
  with l nonempty show ?thesis
    by (cases "LedgerAPI_split w proofs_in amt scnd_secret st")
       (simp add: Wallet_split_def Let_def)
qed

lemma amount_split_zero: "amount_split 0 = []"
  unfolding amount_split_def by code_simp

lemma Wallet_split_zero_total:
  assumes "proofs_in \<noteq> []" and "sum_list (map amount proofs_in) = 0"
    and "post_split w proofs_in 0 [] = Body ([], [])"
  shows "fst (Wallet_split w proofs_in 0 scnd_secret st) = Inl (Exception ''received no splits.'')"
  using assms
  by (cases scnd_secret)
     (simp_all add: Wallet_split_def LedgerAPI_split_def split_secrets_def generate_secrets_def
        py_range_def amount_split_zero construct_outputs_def split_answer_def construct_proofs_def
        Let_def)


end
